theory Spec2Isabelle
  imports Complex_Main "HOL-Library.Word"
begin

unbundle bit_operations_syntax

section \<open>Errors and results\<close>

text \<open>
  The exception classes of namespace \<open>error\<close> of \<open>json.h\<close>. A function that may throw
  returns a \<open>result\<close>: \<open>Return\<close> for normal completion, \<open>Throw\<close> for an exception.
  Loops whose termination depends on the character source are bounded by a fuel
  argument; \<open>OutOfFuel\<close> is the value of a run that did not finish within it. More fuel
  never changes the result of a run that finished, and a run on a text always finishes
  within fuel above twice the length of the text; both are proved below.
\<close>

datatype error =
    ValueTypeError string
  | UnexpectedToken
  | UnexpectedEscape char
  | IndexOutOfRange
  | KeyNotExists string

datatype 'a result = Return 'a | Throw error | OutOfFuel

section \<open>Characters\<close>

abbreviation NUL :: char where "NUL \<equiv> CHR 0x00"
abbreviation BS :: char where "BS \<equiv> CHR 0x08"
abbreviation HT :: char where "HT \<equiv> CHR 0x09"
abbreviation LF :: char where "LF \<equiv> CHR 0x0A"
abbreviation VT :: char where "VT \<equiv> CHR 0x0B"
abbreviation FF :: char where "FF \<equiv> CHR 0x0C"
abbreviation CR :: char where "CR \<equiv> CHR 0x0D"
abbreviation DQUOTE :: char where "DQUOTE \<equiv> CHR 0x22"
abbreviation BSLASH :: char where "BSLASH \<equiv> CHR 0x5C"

text \<open>
  \<open>std::isdigit\<close> and \<open>std::isspace\<close> in the "C" locale. The code passes them a \<open>char\<close>;
  a byte above \<open>0x7F\<close>, for which the call is not defined when \<open>char\<close> is signed, is
  taken to be neither a digit nor a space.
\<close>

definition isdigit :: "char \<Rightarrow> bool" where
  "isdigit c = (c \<in> set ''0123456789'')"

definition isspace :: "char \<Rightarrow> bool" where
  "isspace c = (c \<in> set [CHR '' '', HT, LF, VT, FF, CR])"

section \<open>Character sources\<close>

subsection \<open>StringReader\<close>

text \<open>
  The reader holds a pointer \<open>str_\<close> into a null-terminated buffer. The model keeps the
  bytes from the pointer on; the end of the list is the terminator, so \<open>*str_\<close> is
  \<open>deref\<close> and \<open>++str_\<close> is \<open>tl\<close>.
\<close>

fun deref :: "string \<Rightarrow> char" where
  "deref [] = NUL"
| "deref (c # cs) = c"

text \<open>\<open>char rdch() { return *str_ ? *++str_ : '\0'; }\<close>\<close>

definition StringReader_rdch :: "string \<Rightarrow> char \<times> string" where
  "StringReader_rdch str = (if deref str \<noteq> NUL then (deref (tl str), tl str) else (NUL, str))"

subsection \<open>StreamReader\<close>

text \<open>
  The part of \<open>std::istream\<close> the reader uses: the bytes not yet extracted and whether the
  stream is \<open>good()\<close>. \<open>read(buf, k)\<close> extracts up to \<open>k\<close> bytes and sets eofbit and failbit
  (so the stream is no longer good) when fewer than \<open>k\<close> were there.
\<close>

record istream =
  content :: string
  good :: bool

definition istream_read :: "istream \<Rightarrow> nat \<Rightarrow> string \<times> istream" where
  "istream_read s k =
     (take k (content s),
      \<lparr>content = drop k (content s), good = (k \<le> length (content s))\<rparr>)"

record StreamReader =
  sr_in :: istream
  sr_idx :: nat
  sr_len :: nat
  sr_buf :: string

definition StreamReader_init :: "istream \<Rightarrow> StreamReader" where
  "StreamReader_init s = \<lparr>sr_in = s, sr_idx = 0, sr_len = 0, sr_buf = replicate 256 NUL\<rparr>"

definition StreamReader_rdch :: "StreamReader \<Rightarrow> char \<times> StreamReader" where
  "StreamReader_rdch s =
     (let idx = sr_idx s + 1 in
      if idx < sr_len s then (sr_buf s ! idx, s\<lparr>sr_idx := idx\<rparr>)
      else
        let s' =
          (if good (sr_in s) then
             (case istream_read (sr_in s) 256 of
                (chunk, is') \<Rightarrow>
                  \<lparr>sr_in = is', sr_idx = 0, sr_len = length chunk,
                   sr_buf = chunk @ drop (length chunk) (sr_buf s)\<rparr>)
           else s\<lparr>sr_idx := 0, sr_len := 0\<rparr>)
        in (if sr_len s' \<noteq> 0 then sr_buf s' ! 0 else NUL, s'))"

text \<open>The first \<open>k\<close> characters that successive \<open>rdch()\<close> calls return.\<close>

fun rdch_seq :: "('r \<Rightarrow> char \<times> 'r) \<Rightarrow> nat \<Rightarrow> 'r \<Rightarrow> string" where
  "rdch_seq rd 0 r = []"
| "rdch_seq rd (Suc k) r = (case rd r of (c, r') \<Rightarrow> c # rdch_seq rd k r')"

section \<open>Values as the parser builds them and the serializer reads them\<close>

text \<open>
  The logical content of a \<open>Value\<close>: the active variant and its payload. \<open>Int\<close> is
  \<open>long long\<close>, a 64-bit word read as two's complement. \<open>Float\<close> is \<open>double\<close>; its
  arithmetic is not part of \<open>json.h\<close> and is a parameter of the model (\<open>float_ops\<close>).
  \<open>Object\<close> is \<open>std::unordered_map\<close>: a list of entries with distinct keys whose
  order stands for the unspecified iteration order.
\<close>

datatype 'f json =
    JNull
  | JBool bool
  | JInt "64 word"
  | JFloat 'f
  | JString string
  | JArray "'f json list"
  | JObject "(string \<times> 'f json) list"

record 'f float_ops =
  f_of_int :: "int \<Rightarrow> 'f"
  f_add :: "'f \<Rightarrow> 'f \<Rightarrow> 'f"
  f_sub :: "'f \<Rightarrow> 'f \<Rightarrow> 'f"
  f_mul :: "'f \<Rightarrow> 'f \<Rightarrow> 'f"
  f_neg :: "'f \<Rightarrow> 'f"
  f_pow :: "'f \<Rightarrow> 'f \<Rightarrow> 'f"
  f_is_zero :: "'f \<Rightarrow> bool"
  f_show :: "'f \<Rightarrow> string"

text \<open>The instance in exact arithmetic: no rounding, no overflow.\<close>

definition exact_float :: "real float_ops" where
  "exact_float =
     \<lparr>f_of_int = real_of_int, f_add = (+), f_sub = (-), f_mul = (*), f_neg = uminus,
      f_pow = (powr), f_is_zero = (\<lambda>x. x = 0), f_show = (\<lambda>x. [])\<rparr>"

text \<open>\<open>obj[key] = v\<close> on the entries of an \<open>Object\<close>.\<close>

fun obj_set :: "(string \<times> 'v) list \<Rightarrow> string \<Rightarrow> 'v \<Rightarrow> (string \<times> 'v) list" where
  "obj_set [] k v = [(k, v)]"
| "obj_set ((k', v') # kvs) k v =
     (if k' = k then (k, v) # kvs else (k', v') # obj_set kvs k v)"

section \<open>Parser\<close>

text \<open>
  \<open>Parser<R>\<close> holds the reader \<open>r_\<close> and the lookahead \<open>ch_\<close> (fields \<open>p_r\<close>, \<open>p_ch\<close>).
  The reader's \<open>rdch\<close> is the parameter \<open>rd\<close>. Each \<open>parse_*\<close> method returns the
  value it assigns to its \<open>Value&\<close> argument together with the parser state.
\<close>

record 'r Parser =
  p_r :: 'r
  p_ch :: char

definition skip :: "('r \<Rightarrow> char \<times> 'r) \<Rightarrow> 'r Parser \<Rightarrow> 'r Parser" where
  "skip rd p = (case rd (p_r p) of (c, r') \<Rightarrow> \<lparr>p_r = r', p_ch = c\<rparr>)"

text \<open>The constructor: \<open>r_(r)\<close>, then \<open>skip()\<close>.\<close>

definition Parser_init :: "('r \<Rightarrow> char \<times> 'r) \<Rightarrow> 'r \<Rightarrow> 'r Parser" where
  "Parser_init rd r = (case rd r of (c, r') \<Rightarrow> \<lparr>p_r = r', p_ch = c\<rparr>)"

text \<open>\<open>while (std::isspace(ch_)) skip();\<close>\<close>

fun skip_space :: "('r \<Rightarrow> char \<times> 'r) \<Rightarrow> nat \<Rightarrow> 'r Parser \<Rightarrow> 'r Parser result" where
  "skip_space rd 0 p = OutOfFuel"
| "skip_space rd (Suc n) p =
     (if isspace (p_ch p) then skip_space rd n (skip rd p) else Return p)"

text \<open>
  The loop of \<open>parse_null\<close>, \<open>parse_true\<close> and \<open>parse_false\<close>:
  \<open>for (i = 1; i < N; ++i, skip()) if (ch_ != name[i]) throw UnexpectedToken();\<close>
  over the characters \<open>name[1..N-1]\<close>.
\<close>

fun expect :: "('r \<Rightarrow> char \<times> 'r) \<Rightarrow> string \<Rightarrow> 'r Parser \<Rightarrow> 'r Parser result" where
  "expect rd [] p = Return p"
| "expect rd (c # cs) p =
     (if p_ch p \<noteq> c then Throw UnexpectedToken else expect rd cs (skip rd p))"

definition parse_null :: "('r \<Rightarrow> char \<times> 'r) \<Rightarrow> 'r Parser \<Rightarrow> ('f json \<times> 'r Parser) result" where
  "parse_null rd p =
     (case expect rd ''ull'' (skip rd p) of
        Return p' \<Rightarrow> Return (JNull, p') | Throw e \<Rightarrow> Throw e | OutOfFuel \<Rightarrow> OutOfFuel)"

definition parse_true :: "('r \<Rightarrow> char \<times> 'r) \<Rightarrow> 'r Parser \<Rightarrow> ('f json \<times> 'r Parser) result" where
  "parse_true rd p =
     (case expect rd ''rue'' (skip rd p) of
        Return p' \<Rightarrow> Return (JBool True, p') | Throw e \<Rightarrow> Throw e | OutOfFuel \<Rightarrow> OutOfFuel)"

definition parse_false :: "('r \<Rightarrow> char \<times> 'r) \<Rightarrow> 'r Parser \<Rightarrow> ('f json \<times> 'r Parser) result" where
  "parse_false rd p =
     (case expect rd ''alse'' (skip rd p) of
        Return p' \<Rightarrow> Return (JBool False, p') | Throw e \<Rightarrow> Throw e | OutOfFuel \<Rightarrow> OutOfFuel)"

subsection \<open>Numeric literals\<close>

text \<open>\<open>ch_ - '0'\<close>, converted to the type of the accumulator.\<close>

definition digit_val :: "char \<Rightarrow> int" where
  "digit_val c = of_char c - of_char (CHR ''0'')"

text \<open>
  \<open>do { ival = ival * 10 + ch_ - '0'; skip(); } while (std::isdigit(ch_));\<close>
  The accumulator is a 64-bit word: where the C++ addition overflows, which the
  language leaves undefined, the model wraps around.
\<close>

fun digit_loop ::
  "('r \<Rightarrow> char \<times> 'r) \<Rightarrow> nat \<Rightarrow> 64 word \<Rightarrow> 'r Parser \<Rightarrow> (64 word \<times> 'r Parser) result" where
  "digit_loop rd 0 ival p = OutOfFuel"
| "digit_loop rd (Suc n) ival p =
     (let ival' = ival * 10 + word_of_int (digit_val (p_ch p)); p' = skip rd p
      in if isdigit (p_ch p') then digit_loop rd n ival' p' else Return (ival', p'))"

text \<open>
  In \<open>parse_exp\<close>, for \<open>fval == 0\<close>: \<open>do { skip(); } while (std::isdigit(ch_));\<close>
\<close>

fun exp_skip_loop :: "('r \<Rightarrow> char \<times> 'r) \<Rightarrow> nat \<Rightarrow> 'r Parser \<Rightarrow> 'r Parser result" where
  "exp_skip_loop rd 0 p = OutOfFuel"
| "exp_skip_loop rd (Suc n) p =
     (let p' = skip rd p
      in if isdigit (p_ch p') then exp_skip_loop rd n p' else Return p')"

text \<open>
  In \<open>parse_exp\<close>, otherwise:
  \<open>do { exp += exp * 10 + ch_ - '0'; skip(); } while (std::isdigit(ch_));\<close>
\<close>

fun exp_loop ::
  "('r \<Rightarrow> char \<times> 'r) \<Rightarrow> nat \<Rightarrow> 64 word \<Rightarrow> 'r Parser \<Rightarrow> (64 word \<times> 'r Parser) result" where
  "exp_loop rd 0 ex p = OutOfFuel"
| "exp_loop rd (Suc n) ex p =
     (let ex' = ex + (ex * 10 + word_of_int (digit_val (p_ch p))); p' = skip rd p
      in if isdigit (p_ch p') then exp_loop rd n ex' p' else Return (ex', p'))"

definition parse_exp ::
  "'f float_ops \<Rightarrow> ('r \<Rightarrow> char \<times> 'r) \<Rightarrow> nat \<Rightarrow> 'f \<Rightarrow> 'r Parser \<Rightarrow> ('f \<times> 'r Parser) result" where
  "parse_exp fo rd n fval p =
     (let p1 = skip rd p;
          is_positive = (p_ch p1 \<noteq> CHR ''-'');
          p2 = (if p_ch p1 = CHR ''-'' then skip rd p1
                else if p_ch p1 = CHR ''+'' then skip rd p1 else p1)
      in if \<not> isdigit (p_ch p2) then Throw UnexpectedToken
         else if f_is_zero fo fval then
           (case exp_skip_loop rd n p2 of
              Return p3 \<Rightarrow> Return (fval, p3) | Throw e \<Rightarrow> Throw e | OutOfFuel \<Rightarrow> OutOfFuel)
         else
           (case exp_loop rd n 0 p2 of
              Return (ex, p3) \<Rightarrow>
                Return (f_mul fo fval
                          (f_pow fo (f_of_int fo 10)
                             (f_of_int fo (sint (if is_positive then ex else - ex)))), p3)
            | Throw e \<Rightarrow> Throw e | OutOfFuel \<Rightarrow> OutOfFuel))"

text \<open>
  In \<open>parse_dot\<close>:
  \<open>for (Float e = -1;; --e) { fval += static_cast<Float>(ch_ - '0') * std::pow(10.0, e);
  skip(); if (!std::isdigit(ch_)) break; }\<close>
\<close>

fun dot_loop ::
  "'f float_ops \<Rightarrow> ('r \<Rightarrow> char \<times> 'r) \<Rightarrow> nat \<Rightarrow> 'f \<Rightarrow> 'f \<Rightarrow> 'r Parser \<Rightarrow> ('f \<times> 'r Parser) result" where
  "dot_loop fo rd 0 e fval p = OutOfFuel"
| "dot_loop fo rd (Suc n) e fval p =
     (let fval' = f_add fo fval
                    (f_mul fo (f_of_int fo (digit_val (p_ch p))) (f_pow fo (f_of_int fo 10) e));
          p' = skip rd p
      in if \<not> isdigit (p_ch p') then Return (fval', p')
         else dot_loop fo rd n (f_sub fo e (f_of_int fo 1)) fval' p')"

definition parse_dot ::
  "'f float_ops \<Rightarrow> ('r \<Rightarrow> char \<times> 'r) \<Rightarrow> nat \<Rightarrow> 'f \<Rightarrow> 'r Parser \<Rightarrow> ('f \<times> 'r Parser) result" where
  "parse_dot fo rd n fval p =
     (let p1 = skip rd p
      in if \<not> isdigit (p_ch p1) then Throw UnexpectedToken
         else
           (case dot_loop fo rd n (f_of_int fo (- 1)) fval p1 of
              Return (fval', p2) \<Rightarrow>
                if p_ch p2 = CHR ''e'' \<or> p_ch p2 = CHR ''E'' then parse_exp fo rd n fval' p2
                else Return (fval', p2)
            | Throw e \<Rightarrow> Throw e | OutOfFuel \<Rightarrow> OutOfFuel))"

definition parse_digit ::
  "'f float_ops \<Rightarrow> ('r \<Rightarrow> char \<times> 'r) \<Rightarrow> nat \<Rightarrow> 'r Parser \<Rightarrow> ('f json \<times> 'r Parser) result" where
  "parse_digit fo rd n p =
     (let is_positive = (p_ch p \<noteq> CHR ''-'');
          p1 = (if p_ch p = CHR ''-'' then skip rd p else p)
      in if p_ch p = CHR ''-'' \<and> \<not> isdigit (p_ch p1) then Throw UnexpectedToken
         else
           (case digit_loop rd n 0 p1 of
              Return (ival, p2) \<Rightarrow>
                if p_ch p2 = CHR ''.'' then
                  (case parse_dot fo rd n (f_of_int fo (sint ival)) p2 of
                     Return (fval, p3) \<Rightarrow>
                       Return (JFloat (if is_positive then fval else f_neg fo fval), p3)
                   | Throw e \<Rightarrow> Throw e | OutOfFuel \<Rightarrow> OutOfFuel)
                else if p_ch p2 = CHR ''e'' \<or> p_ch p2 = CHR ''E'' then
                  (case parse_exp fo rd n (f_of_int fo (sint ival)) p2 of
                     Return (fval, p3) \<Rightarrow>
                       Return (JFloat (if is_positive then fval else f_neg fo fval), p3)
                   | Throw e \<Rightarrow> Throw e | OutOfFuel \<Rightarrow> OutOfFuel)
                else Return (JInt (if is_positive then ival else - ival), p2)
            | Throw e \<Rightarrow> Throw e | OutOfFuel \<Rightarrow> OutOfFuel))"

subsection \<open>String literals\<close>

text \<open>
  \<open>lo <= ch_ && ch_ <= hi\<close> for ASCII bounds \<open>lo\<close>, \<open>hi\<close>. A byte above \<open>0x7F\<close> fails the
  test whether \<open>char\<close> is signed (it is below \<open>lo\<close>) or unsigned (it is above \<open>hi\<close>).
\<close>

definition in_range :: "char \<Rightarrow> char \<Rightarrow> char \<Rightarrow> bool" where
  "in_range lo hi c = ((of_char lo :: nat) \<le> of_char c \<and> (of_char c :: nat) \<le> of_char hi)"

text \<open>
  The loop of the \<open>'u'\<close> escape, \<open>k\<close> iterations to go:
  \<open>for (i = 0; i < 4; ++i) { skip(); hex <<= 4; if ('0' <= ch_ && ch_ <= '9') hex += ch_ - '0';
  else if ('a' <= ch_ && ch_ <= 'f') hex += ch_ - 'a'; else if ('A' <= ch_ && ch_ <= 'F')
  hex += ch_ - 'A'; else throw error::UnexpectedToken(); }\<close>
\<close>

fun hex_loop ::
  "('r \<Rightarrow> char \<times> 'r) \<Rightarrow> nat \<Rightarrow> 32 word \<Rightarrow> 'r Parser \<Rightarrow> (32 word \<times> 'r Parser) result" where
  "hex_loop rd 0 hex p = Return (hex, p)"
| "hex_loop rd (Suc k) hex p =
     (let p' = skip rd p; hex' = push_bit 4 hex; c = p_ch p'
      in if in_range (CHR ''0'') (CHR ''9'') c then
           hex_loop rd k (hex' + word_of_int (of_char c - of_char (CHR ''0''))) p'
         else if in_range (CHR ''a'') (CHR ''f'') c then
           hex_loop rd k (hex' + word_of_int (of_char c - of_char (CHR ''a''))) p'
         else if in_range (CHR ''A'') (CHR ''F'') c then
           hex_loop rd k (hex' + word_of_int (of_char c - of_char (CHR ''A''))) p'
         else Throw UnexpectedToken)"

text \<open>\<open>static_cast<char>\<close> of a \<open>uint32_t\<close>: the low eight bits.\<close>

definition to_char :: "32 word \<Rightarrow> char" where
  "to_char w = char_of (unat w)"

text \<open>
  The inner \<open>switch\<close> of \<open>parse_string\<close>, entered with the character after the backslash
  as lookahead: the bytes it writes to \<open>ss\<close>, and the parser state before the \<open>skip()\<close>
  that follows the \<open>switch\<close>.
\<close>

definition escape :: "('r \<Rightarrow> char \<times> 'r) \<Rightarrow> 'r Parser \<Rightarrow> (string \<times> 'r Parser) result" where
  "escape rd p =
     (let c = p_ch p
      in if c = CHR ''/'' then Return ([CHR ''/''], p)
         else if c = DQUOTE then Return ([DQUOTE], p)
         else if c = BSLASH then Return ([BSLASH], p)
         else if c = CHR ''b'' then Return ([BS], p)
         else if c = CHR ''f'' then Return ([FF], p)
         else if c = CHR ''v'' then Return ([VT], p)
         else if c = CHR ''n'' then Return ([LF], p)
         else if c = CHR ''r'' then Return ([CR], p)
         else if c = CHR ''t'' then Return ([HT], p)
         else if c = CHR ''u'' then
           (case hex_loop rd 4 0 p of
              Return (hex, p') \<Rightarrow>
                Return ([to_char (0xE0 OR drop_bit 12 hex),
                         to_char (0x80 OR drop_bit 6 hex),
                         to_char (0x80 OR (hex AND 0x3F))], p')
            | Throw e \<Rightarrow> Throw e | OutOfFuel \<Rightarrow> OutOfFuel)
         else Throw (UnexpectedEscape c))"

text \<open>The \<open>for (;;)\<close> loop of \<open>parse_string(String&)\<close>; \<open>ss\<close> is the string stream.\<close>

fun string_loop ::
  "('r \<Rightarrow> char \<times> 'r) \<Rightarrow> nat \<Rightarrow> string \<Rightarrow> 'r Parser \<Rightarrow> (string \<times> 'r Parser) result" where
  "string_loop rd 0 ss p = OutOfFuel"
| "string_loop rd (Suc n) ss p =
     (if p_ch p = NUL then Throw UnexpectedToken
      else if p_ch p = DQUOTE then Return (ss, skip rd p)
      else if p_ch p = BSLASH then
        (case escape rd (skip rd p) of
           Return (bytes, p') \<Rightarrow> string_loop rd n (ss @ bytes) (skip rd p')
         | Throw e \<Rightarrow> Throw e | OutOfFuel \<Rightarrow> OutOfFuel)
      else string_loop rd n (ss @ [p_ch p]) (skip rd p))"

text \<open>\<open>parse_string(String& out)\<close> and \<open>parse_string(Value& out)\<close>.\<close>

definition parse_string :: "('r \<Rightarrow> char \<times> 'r) \<Rightarrow> nat \<Rightarrow> 'r Parser \<Rightarrow> (string \<times> 'r Parser) result" where
  "parse_string rd n p = string_loop rd n [] (skip rd p)"

definition parse_string_value ::
  "('r \<Rightarrow> char \<times> 'r) \<Rightarrow> nat \<Rightarrow> 'r Parser \<Rightarrow> ('f json \<times> 'r Parser) result" where
  "parse_string_value rd n p =
     (case parse_string rd n p of
        Return (str, p') \<Rightarrow> Return (JString str, p')
      | Throw e \<Rightarrow> Throw e | OutOfFuel \<Rightarrow> OutOfFuel)"

subsection \<open>Values, arrays and objects\<close>

text \<open>
  \<open>parse\<close> is the \<open>for (;;) switch (ch_)\<close> of \<open>Parser::parse\<close>. \<open>array_loop\<close> and
  \<open>object_loop\<close> are the \<open>while (ch_)\<close> loops of \<open>parse_array\<close> and \<open>parse_object\<close>, with
  the \<open>throw\<close> that follows them; \<open>arr\<close> and \<open>obj\<close> are the local containers. The \<open>skip()\<close>
  that opens \<open>parse_array\<close> and \<open>parse_object\<close> is at their call in \<open>parse\<close>.
\<close>

fun parse ::
    "'f float_ops \<Rightarrow> ('r \<Rightarrow> char \<times> 'r) \<Rightarrow> nat \<Rightarrow> 'r Parser \<Rightarrow> ('f json \<times> 'r Parser) result"
  and array_loop ::
    "'f float_ops \<Rightarrow> ('r \<Rightarrow> char \<times> 'r) \<Rightarrow> nat \<Rightarrow> 'f json list \<Rightarrow> 'r Parser
       \<Rightarrow> ('f json \<times> 'r Parser) result"
  and object_loop ::
    "'f float_ops \<Rightarrow> ('r \<Rightarrow> char \<times> 'r) \<Rightarrow> nat \<Rightarrow> (string \<times> 'f json) list \<Rightarrow> 'r Parser
       \<Rightarrow> ('f json \<times> 'r Parser) result"
where
  "parse fo rd 0 p = OutOfFuel"
| "parse fo rd (Suc n) p =
     (let c = p_ch p
      in if c = CHR '' '' \<or> c = HT \<or> c = CR \<or> c = VT \<or> c = FF \<or> c = LF then
           parse fo rd n (skip rd p)
         else if c = CHR ''-'' \<or> isdigit c then parse_digit fo rd n p
         else if c = CHR ''n'' then parse_null rd p
         else if c = CHR ''t'' then parse_true rd p
         else if c = CHR ''f'' then parse_false rd p
         else if c = DQUOTE then parse_string_value rd n p
         else if c = CHR ''['' then array_loop fo rd n [] (skip rd p)
         else if c = CHR ''{'' then object_loop fo rd n [] (skip rd p)
         else Throw UnexpectedToken)"
| "array_loop fo rd 0 arr p = OutOfFuel"
| "array_loop fo rd (Suc n) arr p =
     (if p_ch p = NUL then Throw UnexpectedToken
      else
        (case parse fo rd n p of
           Return (v, p1) \<Rightarrow>
             (case skip_space rd n p1 of
                Return p2 \<Rightarrow>
                  if p_ch p2 = CHR '']'' then Return (JArray (arr @ [v]), skip rd p2)
                  else if p_ch p2 \<noteq> CHR '','' then Throw UnexpectedToken
                  else array_loop fo rd n (arr @ [v]) (skip rd p2)
              | Throw e \<Rightarrow> Throw e | OutOfFuel \<Rightarrow> OutOfFuel)
         | Throw e \<Rightarrow> Throw e | OutOfFuel \<Rightarrow> OutOfFuel))"
| "object_loop fo rd 0 obj p = OutOfFuel"
| "object_loop fo rd (Suc n) obj p =
     (if p_ch p = NUL then Throw UnexpectedToken
      else
        (case skip_space rd n p of
           Return p1 \<Rightarrow>
             if p_ch p1 \<noteq> DQUOTE then Throw UnexpectedToken
             else
               (case parse_string rd n p1 of
                  Return (key, p2) \<Rightarrow>
                    (case skip_space rd n p2 of
                       Return p3 \<Rightarrow>
                         if p_ch p3 \<noteq> CHR '':'' then Throw UnexpectedToken
                         else
                           (case parse fo rd n (skip rd p3) of
                              Return (v, p4) \<Rightarrow>
                                (case skip_space rd n p4 of
                                   Return p5 \<Rightarrow>
                                     if p_ch p5 = CHR ''}'' then
                                       Return (JObject (obj_set obj key v), skip rd p5)
                                     else if p_ch p5 \<noteq> CHR '','' then Throw UnexpectedToken
                                     else object_loop fo rd n (obj_set obj key v) (skip rd p5)
                                 | Throw e \<Rightarrow> Throw e | OutOfFuel \<Rightarrow> OutOfFuel)
                            | Throw e \<Rightarrow> Throw e | OutOfFuel \<Rightarrow> OutOfFuel)
                     | Throw e \<Rightarrow> Throw e | OutOfFuel \<Rightarrow> OutOfFuel)
                | Throw e \<Rightarrow> Throw e | OutOfFuel \<Rightarrow> OutOfFuel)
         | Throw e \<Rightarrow> Throw e | OutOfFuel \<Rightarrow> OutOfFuel))"

definition parse_array ::
  "'f float_ops \<Rightarrow> ('r \<Rightarrow> char \<times> 'r) \<Rightarrow> nat \<Rightarrow> 'r Parser \<Rightarrow> ('f json \<times> 'r Parser) result" where
  "parse_array fo rd n p = array_loop fo rd n [] (skip rd p)"

definition parse_object ::
  "'f float_ops \<Rightarrow> ('r \<Rightarrow> char \<times> 'r) \<Rightarrow> nat \<Rightarrow> 'r Parser \<Rightarrow> ('f json \<times> 'r Parser) result" where
  "parse_object fo rd n p = object_loop fo rd n [] (skip rd p)"

subsection \<open>deserialize\<close>

text \<open>
  \<open>deserialize(const char*)\<close> (and \<open>deserialize(const String&)\<close>, which passes \<open>c_str()\<close>) and
  \<open>deserialize(std::istream&)\<close>: construct the parser over the reader, parse one value.
\<close>

definition deserialize :: "'f float_ops \<Rightarrow> nat \<Rightarrow> string \<Rightarrow> 'f json result" where
  "deserialize fo n str =
     (case parse fo StringReader_rdch n (Parser_init StringReader_rdch str) of
        Return (v, p) \<Rightarrow> Return v | Throw e \<Rightarrow> Throw e | OutOfFuel \<Rightarrow> OutOfFuel)"

definition deserialize_stream :: "'f float_ops \<Rightarrow> nat \<Rightarrow> istream \<Rightarrow> 'f json result" where
  "deserialize_stream fo n s =
     (case parse fo StreamReader_rdch n (Parser_init StreamReader_rdch (StreamReader_init s)) of
        Return (v, p) \<Rightarrow> Return v | Throw e \<Rightarrow> Throw e | OutOfFuel \<Rightarrow> OutOfFuel)"

text \<open>A stream that holds the text \<open>s\<close> and has not been read yet.\<close>

definition stream_of :: "string \<Rightarrow> istream" where
  "stream_of s = \<lparr>content = s, good = True\<rparr>"

section \<open>Serializer\<close>

text \<open>
  \<open>out << val\<close> for \<open>long long\<close> is the standard library's: decimal digits, with a leading
  \<open>-\<close> for a negative value.
\<close>

fun show_nat :: "nat \<Rightarrow> string" where
  "show_nat n =
     (if n < 10 then [char_of (48 + n)] else show_nat (n div 10) @ [char_of (48 + n mod 10)])"

definition show_Int :: "64 word \<Rightarrow> string" where
  "show_Int v = (if sint v < 0 then CHR ''-'' # show_nat (nat (- sint v)) else show_nat (nat (sint v)))"

text \<open>
  \<open>detail::serialize(const String&, std::ostream&)\<close>: the loop
  \<open>for (const char* ch = str.c_str(); *ch; ++ch) switch (*ch) ...\<close> and the quotes around it.
\<close>

fun serialize_chars :: "string \<Rightarrow> string" where
  "serialize_chars [] = []"
| "serialize_chars (c # cs) =
     (if c = NUL then []
      else
        (if c = DQUOTE then [BSLASH, DQUOTE]
         else if c = CHR ''/'' then [BSLASH, CHR ''/'']
         else if c = BSLASH then [BSLASH, BSLASH]
         else if c = BS then [BSLASH, CHR ''b'']
         else if c = FF then [BSLASH, CHR ''f'']
         else if c = LF then [BSLASH, CHR ''n'']
         else if c = CR then [BSLASH, CHR ''r'']
         else if c = HT then [BSLASH, CHR ''t'']
         else [c]) @ serialize_chars cs)"

definition serialize_String :: "string \<Rightarrow> string" where
  "serialize_String str = [DQUOTE] @ serialize_chars str @ [DQUOTE]"

text \<open>
  \<open>operator<<(std::ostream&, const Value&)\<close> with \<open>detail::serialize\<close> for \<open>Array\<close> and
  \<open>Object\<close>; the result is the text written to \<open>out\<close>. The loops carry \<open>is_first\<close>.
\<close>

fun serialize :: "'f float_ops \<Rightarrow> 'f json \<Rightarrow> string"
  and serialize_Array :: "'f float_ops \<Rightarrow> bool \<Rightarrow> 'f json list \<Rightarrow> string"
  and serialize_Object :: "'f float_ops \<Rightarrow> bool \<Rightarrow> (string \<times> 'f json) list \<Rightarrow> string"
where
  "serialize fo JNull = ''null''"
| "serialize fo (JInt i) = show_Int i"
| "serialize fo (JBool b) = (if b then ''true'' else ''false'')"
| "serialize fo (JFloat x) = f_show fo x"
| "serialize fo (JArray arr) =
     (if arr = [] then ''[]'' else serialize_Array fo True arr @ '']'')"
| "serialize fo (JObject obj) =
     (if obj = [] then ''{}'' else serialize_Object fo True obj @ ''}'')"
| "serialize fo (JString str) = serialize_String str"
| "serialize_Array fo is_first [] = []"
| "serialize_Array fo is_first (v # vs) =
     (if is_first then ''['' else '','') @ serialize fo v @ serialize_Array fo False vs"
| "serialize_Object fo is_first [] = []"
| "serialize_Object fo is_first ((k, v) # kvs) =
     (if is_first then ''{'' else '','') @ serialize_String k @ '':'' @ serialize fo v
       @ serialize_Object fo False kvs"

section \<open>The Value class: tagged union over reference-counted boxes\<close>

text \<open>
  \<open>Value\<close> has a tag \<open>type_\<close> and a union \<open>data_\<close> (fields \<open>v_type\<close>, \<open>v_data\<close>). The members
  of the union share their storage: any of the three pointer members reads the address
  that was stored through any of them (\<open>ptr\<close>). A \<open>double\<close> is kept as its 64 bits.
  A box is a \<open>Wrapper<T>\<close>: the payload \<open>value\<close> and the count \<open>uses_\<close>.
  The heap is the list of all cells ever allocated, indexed by address; \<open>new\<close> appends a
  cell and \<open>delete\<close> marks it \<open>Freed\<close>.
\<close>

datatype Type =
  JSON_NULL | JSON_BOOL | JSON_INT | JSON_FLOAT | JSON_STRING | JSON_ARRAY | JSON_OBJECT

type_synonym addr = nat

datatype Data =
    ival "64 word"
  | bval bool
  | fval "64 word"
  | aptr addr
  | optr addr
  | sptr addr

record Value =
  v_type :: Type
  v_data :: Data

datatype payload =
    PString string
  | PArray "Value list"
  | PObject "(string \<times> Value) list"

record Wrapper =
  w_value :: payload
  uses :: int

datatype cell = Live Wrapper | Freed

type_synonym heap = "cell list"

text \<open>
  What the C++ standard leaves undefined is a value of its own: reaching a box that was
  deleted or never allocated (\<open>DanglingPointer\<close>), \<open>delete\<close> through a pointer to
  \<open>Wrapper<T>\<close> of a box that holds another payload type (\<open>WrongTypeDelete\<close>, with the type
  of the pointer and the payload found), reading a box as another payload type than
  it holds (\<open>WrongPayload\<close>), and using a scalar member of the union as a pointer
  (\<open>NotAPointer\<close>).
\<close>

datatype fault =
  DanglingPointer addr | WrongTypeDelete Type payload | WrongPayload | NotAPointer

datatype 'a outcome = Ok 'a | Raise error | Undefined fault | Exhausted

text \<open>The payload type of a \<open>Wrapper<T>\<close>, as the tag of the Value kind it serves.\<close>

fun payload_type :: "payload \<Rightarrow> Type" where
  "payload_type (PString s) = JSON_STRING"
| "payload_type (PArray vs) = JSON_ARRAY"
| "payload_type (PObject kvs) = JSON_OBJECT"

fun ptr :: "Data \<Rightarrow> addr option" where
  "ptr (aptr a) = Some a"
| "ptr (optr a) = Some a"
| "ptr (sptr a) = Some a"
| "ptr d = None"

definition box_at :: "heap \<Rightarrow> addr \<Rightarrow> Wrapper option" where
  "box_at h a = (if a < length h then (case h ! a of Live w \<Rightarrow> Some w | Freed \<Rightarrow> None) else None)"

text \<open>\<open>new Wrapper<T>(v)\<close>: a fresh cell with \<open>uses_ = 1\<close>.\<close>

definition new_Wrapper :: "payload \<Rightarrow> heap \<Rightarrow> addr \<times> heap" where
  "new_Wrapper v h = (length h, h @ [Live \<lparr>w_value = v, uses = 1\<rparr>])"

text \<open>Constructors: \<open>Value()\<close>, \<open>Value(Bool)\<close>, \<open>Value(R)\<close> for an integer, and the boxed kinds.\<close>

definition Value_Null :: Value where
  "Value_Null = \<lparr>v_type = JSON_NULL, v_data = ival 0\<rparr>"

definition Value_Bool :: "bool \<Rightarrow> Value" where
  "Value_Bool b = \<lparr>v_type = JSON_BOOL, v_data = bval b\<rparr>"

definition Value_Int :: "64 word \<Rightarrow> Value" where
  "Value_Int i = \<lparr>v_type = JSON_INT, v_data = ival i\<rparr>"

definition Value_String :: "string \<Rightarrow> heap \<Rightarrow> Value \<times> heap" where
  "Value_String str h =
     (case new_Wrapper (PString str) h of (a, h') \<Rightarrow> (\<lparr>v_type = JSON_STRING, v_data = sptr a\<rparr>, h'))"

definition Value_Array :: "Value list \<Rightarrow> heap \<Rightarrow> Value \<times> heap" where
  "Value_Array arr h =
     (case new_Wrapper (PArray arr) h of (a, h') \<Rightarrow> (\<lparr>v_type = JSON_ARRAY, v_data = aptr a\<rparr>, h'))"

definition Value_Object :: "(string \<times> Value) list \<Rightarrow> heap \<Rightarrow> Value \<times> heap" where
  "Value_Object obj h =
     (case new_Wrapper (PObject obj) h of (a, h') \<Rightarrow> (\<lparr>v_type = JSON_OBJECT, v_data = optr a\<rparr>, h'))"

text \<open>\<open>Wrapper::incref\<close> and \<open>Wrapper::decref\<close> on the box a pointer member denotes.\<close>

definition Wrapper_incref :: "Data \<Rightarrow> heap \<Rightarrow> (int \<times> heap) outcome" where
  "Wrapper_incref d h =
     (case ptr d of
        None \<Rightarrow> Undefined NotAPointer
      | Some a \<Rightarrow>
          (case box_at h a of
             None \<Rightarrow> Undefined (DanglingPointer a)
           | Some w \<Rightarrow> Ok (uses w + 1, h[a := Live (w\<lparr>uses := uses w + 1\<rparr>)])))"

definition Wrapper_decref :: "Data \<Rightarrow> heap \<Rightarrow> (int \<times> heap) outcome" where
  "Wrapper_decref d h =
     (case ptr d of
        None \<Rightarrow> Undefined NotAPointer
      | Some a \<Rightarrow>
          (case box_at h a of
             None \<Rightarrow> Undefined (DanglingPointer a)
           | Some w \<Rightarrow> Ok (uses w - 1, h[a := Live (w\<lparr>uses := uses w - 1\<rparr>)])))"

text \<open>\<open>Value::incref\<close>.\<close>

definition incref :: "Value \<Rightarrow> heap \<Rightarrow> heap outcome" where
  "incref v h =
     (if v_type v = JSON_ARRAY \<or> v_type v = JSON_OBJECT \<or> v_type v = JSON_STRING then
        (case Wrapper_incref (v_data v) h of
           Ok (n, h') \<Rightarrow> Ok h' | Raise e \<Rightarrow> Raise e | Undefined f \<Rightarrow> Undefined f
         | Exhausted \<Rightarrow> Exhausted)
      else Ok h)"

text \<open>
  \<open>Value::decref\<close>, \<open>Value::destory<T>\<close> and \<open>delete\<close>. The three specializations are
  \<open>destory<Array>() { delete data_.sptr; }\<close>, \<open>destory<Object>() { delete data_.optr; }\<close> and
  \<open>destory<String>() { delete data_.aptr; }\<close>: \<open>delete_Wrapper\<close> takes the payload type of
  the pointer member it is called through. Deleting a box destroys its payload, which
  runs \<open>~Value\<close>, that is \<open>decref\<close>, on every Value the payload holds, and frees the
  cell. The recursion follows the heap and is bounded by fuel.
\<close>

fun decref :: "nat \<Rightarrow> Value \<Rightarrow> heap \<Rightarrow> heap outcome"
  and delete_Wrapper :: "nat \<Rightarrow> Type \<Rightarrow> Data \<Rightarrow> heap \<Rightarrow> heap outcome"
  and destroy_all :: "nat \<Rightarrow> Value list \<Rightarrow> heap \<Rightarrow> heap outcome"
where
  "decref 0 v h = Exhausted"
| "decref (Suc n) v h =
     (if v_type v = JSON_ARRAY then
        (case Wrapper_decref (v_data v) h of
           Ok (k, h') \<Rightarrow> if k = 0 then delete_Wrapper n JSON_STRING (v_data v) h' else Ok h'
         | Raise e \<Rightarrow> Raise e | Undefined f \<Rightarrow> Undefined f | Exhausted \<Rightarrow> Exhausted)
      else if v_type v = JSON_OBJECT then
        (case Wrapper_decref (v_data v) h of
           Ok (k, h') \<Rightarrow> if k = 0 then delete_Wrapper n JSON_OBJECT (v_data v) h' else Ok h'
         | Raise e \<Rightarrow> Raise e | Undefined f \<Rightarrow> Undefined f | Exhausted \<Rightarrow> Exhausted)
      else if v_type v = JSON_STRING then
        (case Wrapper_decref (v_data v) h of
           Ok (k, h') \<Rightarrow> if k = 0 then delete_Wrapper n JSON_ARRAY (v_data v) h' else Ok h'
         | Raise e \<Rightarrow> Raise e | Undefined f \<Rightarrow> Undefined f | Exhausted \<Rightarrow> Exhausted)
      else Ok h)"
| "delete_Wrapper 0 t d h = Exhausted"
| "delete_Wrapper (Suc n) t d h =
     (case ptr d of
        None \<Rightarrow> Undefined NotAPointer
      | Some a \<Rightarrow>
          (case box_at h a of
             None \<Rightarrow> Undefined (DanglingPointer a)
           | Some w \<Rightarrow>
               if payload_type (w_value w) \<noteq> t then Undefined (WrongTypeDelete t (w_value w))
               else
                 (case destroy_all n
                         (case w_value w of
                            PString s \<Rightarrow> [] | PArray vs \<Rightarrow> vs | PObject kvs \<Rightarrow> map snd kvs) h of
                    Ok h' \<Rightarrow> Ok (h'[a := Freed])
                  | Raise e \<Rightarrow> Raise e | Undefined f \<Rightarrow> Undefined f | Exhausted \<Rightarrow> Exhausted)))"
| "destroy_all n [] h = Ok h"
| "destroy_all 0 (v # vs) h = Exhausted"
| "destroy_all (Suc n) (v # vs) h =
     (case decref n v h of
        Ok h' \<Rightarrow> destroy_all n vs h'
      | Raise e \<Rightarrow> Raise e | Undefined f \<Rightarrow> Undefined f | Exhausted \<Rightarrow> Exhausted)"

text \<open>The copy constructor: \<open>type_(value.type_), data_(value.data_) { incref(); }\<close>.\<close>

definition Value_copy :: "Value \<Rightarrow> heap \<Rightarrow> (Value \<times> heap) outcome" where
  "Value_copy v h =
     (case incref v h of
        Ok h' \<Rightarrow> Ok (v, h') | Raise e \<Rightarrow> Raise e | Undefined f \<Rightarrow> Undefined f
      | Exhausted \<Rightarrow> Exhausted)"

text \<open>The destructor: \<open>decref(); type_ = JSON_NULL;\<close>. The Value is gone afterwards.\<close>

definition Value_destroy :: "nat \<Rightarrow> Value \<Rightarrow> heap \<Rightarrow> heap outcome" where
  "Value_destroy n v h = decref n v h"

text \<open>
  Copy assignment \<open>*this = value\<close>:
  \<open>decref(); type_ = value.type_; data_ = value.data_; incref(); return *this;\<close>
  It returns the new \<open>*this\<close>. For \<open>a = a\<close> both arguments are the same Value.
\<close>

definition copy_assign :: "nat \<Rightarrow> Value \<Rightarrow> Value \<Rightarrow> heap \<Rightarrow> (Value \<times> heap) outcome" where
  "copy_assign n this v h =
     (case decref n this h of
        Ok h1 \<Rightarrow>
          (case incref v h1 of
             Ok h2 \<Rightarrow> Ok (v, h2) | Raise e \<Rightarrow> Raise e | Undefined f \<Rightarrow> Undefined f
           | Exhausted \<Rightarrow> Exhausted)
      | Raise e \<Rightarrow> Raise e | Undefined f \<Rightarrow> Undefined f | Exhausted \<Rightarrow> Exhausted)"

text \<open>
  \<open>insert(R&& val)\<close>, with the Value that \<open>emplace_back\<close> constructs from \<open>val\<close> as the
  argument: append to the Array box, promote a Null Value to a new Array, throw otherwise.
\<close>

definition insert_Value :: "Value \<Rightarrow> Value \<Rightarrow> heap \<Rightarrow> (Value \<times> heap) outcome" where
  "insert_Value this val h =
     (if v_type this = JSON_ARRAY then
        (case ptr (v_data this) of
           None \<Rightarrow> Undefined NotAPointer
         | Some a \<Rightarrow>
             (case box_at h a of
                Some w \<Rightarrow>
                  (case w_value w of
                     PArray vs \<Rightarrow> Ok (this, h[a := Live (w\<lparr>w_value := PArray (vs @ [val])\<rparr>)])
                   | PString s \<Rightarrow> Undefined WrongPayload
                   | PObject kvs \<Rightarrow> Undefined WrongPayload)
              | None \<Rightarrow> Undefined (DanglingPointer a)))
      else if v_type this = JSON_NULL then
        (case new_Wrapper (PArray [val]) h of
           (a, h') \<Rightarrow> Ok (\<lparr>v_type = JSON_ARRAY, v_data = aptr a\<rparr>, h'))
      else Raise (ValueTypeError ''This is not an array''))"

text \<open>
  Keyed access. \<open>find_key\<close> is \<open>obj.find(key)\<close>. The mutable \<open>at(const String&)\<close> returns a
  reference into the box, given here as the entry's Value together with the heap after
  \<open>operator[]\<close> of the map, which adds a default-constructed Value for an absent key.
\<close>

definition find_key :: "(string \<times> Value) list \<Rightarrow> string \<Rightarrow> Value option" where
  "find_key obj key = map_of obj key"

definition object_of :: "Value \<Rightarrow> heap \<Rightarrow> (addr \<times> Wrapper \<times> (string \<times> Value) list) outcome" where
  "object_of v h =
     (case ptr (v_data v) of
        None \<Rightarrow> Undefined NotAPointer
      | Some a \<Rightarrow>
          (case box_at h a of
             Some w \<Rightarrow>
               (case w_value w of
                  PObject kvs \<Rightarrow> Ok (a, w, kvs)
                | PString s \<Rightarrow> Undefined WrongPayload
                | PArray vs \<Rightarrow> Undefined WrongPayload)
           | None \<Rightarrow> Undefined (DanglingPointer a)))"

definition at_key_const :: "Value \<Rightarrow> string \<Rightarrow> heap \<Rightarrow> Value outcome" where
  "at_key_const this key h =
     (if v_type this = JSON_OBJECT then
        (case object_of this h of
           Ok (a, w, obj) \<Rightarrow>
             (case find_key obj key of
                Some v \<Rightarrow> Ok v
              | None \<Rightarrow> Raise (KeyNotExists key))
         | Raise e \<Rightarrow> Raise e | Undefined f \<Rightarrow> Undefined f | Exhausted \<Rightarrow> Exhausted)
      else Raise (ValueTypeError ''This is not an object''))"

definition at_key :: "Value \<Rightarrow> string \<Rightarrow> heap \<Rightarrow> (Value \<times> heap) outcome" where
  "at_key this key h =
     (if v_type this = JSON_OBJECT then
        (case object_of this h of
           Ok (a, w, obj) \<Rightarrow>
             (case find_key obj key of
                Some v \<Rightarrow> Ok (v, h)
              | None \<Rightarrow>
                  Ok (Value_Null, h[a := Live (w\<lparr>w_value := PObject (obj @ [(key, Value_Null)])\<rparr>)]))
         | Raise e \<Rightarrow> Raise e | Undefined f \<Rightarrow> Undefined f | Exhausted \<Rightarrow> Exhausted)
      else Raise (ValueTypeError ''This is not an object''))"

section \<open>The serializer's escaping as the specification words it\<close>

text \<open>
  The specification of the serializer: each of double quote, backslash, forward slash,
  backspace, form feed, newline, carriage return and tab becomes its two-character
  escape (\<open>escape_table\<close> pairs each with the second character), every other byte passes
  through (\<open>spec_escape\<close>). \<open>c_str\<close> is the part of a \<open>std::string\<close> that a reader of its
  \<open>c_str()\<close> sees: the bytes before the first null byte.
\<close>

definition escape_table :: "(char \<times> char) list" where
  "escape_table =
     [(DQUOTE, DQUOTE), (BSLASH, BSLASH), (CHR ''/'', CHR ''/''), (BS, CHR ''b''),
      (FF, CHR ''f''), (LF, CHR ''n''), (CR, CHR ''r''), (HT, CHR ''t'')]"

definition spec_escape :: "char \<Rightarrow> string" where
  "spec_escape c = (case map_of escape_table c of Some e \<Rightarrow> [BSLASH, e] | None \<Rightarrow> [c])"

definition c_str :: "string \<Rightarrow> string" where
  "c_str s = takeWhile (\<lambda>c. c \<noteq> NUL) s"

section \<open>Two runs of the parser: a text, and the text followed by more\<close>

text \<open>
  Numbers are the one kind of value whose end is found by looking at the next
  character: \<open>is_number\<close> are the values \<open>parse_digit\<close> returns, \<open>extends_number\<close> the
  characters that continue a numeric literal.
\<close>

fun is_number :: "'f json \<Rightarrow> bool" where
  "is_number (JInt i) = True"
| "is_number (JFloat x) = True"
| "is_number v = False"

definition extends_number :: "char \<Rightarrow> bool" where
  "extends_number c = (isdigit c \<or> c = CHR ''.'' \<or> c = CHR ''e'' \<or> c = CHR ''E'')"

text \<open>
  Two runs of a parser over the StringReader, one on a text and one on the text
  followed by \<open>t\<close>: \<open>extend t p\<close> is the state of the second run when the first is in
  state \<open>p\<close>. \<open>sync p\<close>: the lookahead is the character at the reader's pointer.
  \<open>ok_end t p\<close>: the text of the first run is not used up at \<open>p\<close>, or \<open>t\<close> does not begin
  with a character that continues a number.
\<close>

definition extend :: "string \<Rightarrow> string Parser \<Rightarrow> string Parser" where
  "extend t p = \<lparr>p_r = p_r p @ t, p_ch = deref (p_r p @ t)\<rparr>"

definition sync :: "string Parser \<Rightarrow> bool" where
  "sync p = (p_ch p = deref (p_r p))"

definition ok_end :: "string \<Rightarrow> string Parser \<Rightarrow> bool" where
  "ok_end t p = (p_r p \<noteq> [] \<or> \<not> extends_number (deref t))"

section \<open>What a StreamReader has yet to return\<close>

text \<open>
  \<open>pending s\<close> is the text a StreamReader in state \<open>s\<close> has not returned yet: the rest of
  the buffered chunk and what is left in the stream. \<open>reader_inv\<close> holds of every state
  the reader reaches: the buffer has 256 bytes, \<open>len_\<close> is within it, and a stream that is
  no longer good has nothing left.
\<close>

definition pending :: "StreamReader \<Rightarrow> string" where
  "pending s = drop (Suc (sr_idx s)) (take (sr_len s) (sr_buf s)) @ content (sr_in s)"

definition reader_inv :: "StreamReader \<Rightarrow> bool" where
  "reader_inv s =
     (length (sr_buf s) = 256 \<and> sr_len s \<le> 256
      \<and> (good (sr_in s) \<or> content (sr_in s) = []))"

section \<open>Two parsers over two readers\<close>

text \<open>
  \<open>bisim rdA rdB R\<close>: from reader states related by \<open>R\<close>, the two \<open>rdch\<close> return the same
  character and related states. \<open>sim R\<close> relates two parser states with the same lookahead
  and related readers. \<open>tail_rel\<close> relates a StringReader over a text without null bytes
  to a StreamReader that has the text after its first character yet to return.
\<close>

definition bisim :: "('a \<Rightarrow> char \<times> 'a) \<Rightarrow> ('b \<Rightarrow> char \<times> 'b) \<Rightarrow> ('a \<Rightarrow> 'b \<Rightarrow> bool) \<Rightarrow> bool" where
  "bisim rdA rdB R = (\<forall>a b. R a b \<longrightarrow> fst (rdA a) = fst (rdB b) \<and> R (snd (rdA a)) (snd (rdB b)))"

definition sim :: "('a \<Rightarrow> 'b \<Rightarrow> bool) \<Rightarrow> 'a Parser \<Rightarrow> 'b Parser \<Rightarrow> bool" where
  "sim R pA pB = (p_ch pA = p_ch pB \<and> R (p_r pA) (p_r pB))"

definition tail_rel :: "string \<Rightarrow> StreamReader \<Rightarrow> bool" where
  "tail_rel str s = (NUL \<notin> set str \<and> reader_inv s \<and> pending s = tl str)"

section \<open>Progress of a reader\<close>

text \<open>
  \<open>progress rd \<mu> I\<close>: on reader states within the invariant \<open>I\<close>, \<open>rdch\<close> keeps the
  invariant, never raises the measure \<open>\<mu>\<close>, and lowers it whenever it returns a
  character other than the null sentinel. \<open>left \<mu> p\<close> counts what a parser in state \<open>p\<close>
  has yet to consume: the reader's measure, and one for a lookahead that is not null.
\<close>

definition progress :: "('r \<Rightarrow> char \<times> 'r) \<Rightarrow> ('r \<Rightarrow> nat) \<Rightarrow> ('r \<Rightarrow> bool) \<Rightarrow> bool" where
  "progress rd \<mu> I =
     (\<forall>r. I r \<longrightarrow> I (snd (rd r)) \<and> \<mu> (snd (rd r)) \<le> \<mu> r
                 \<and> (fst (rd r) = NUL \<or> \<mu> (snd (rd r)) < \<mu> r))"

definition left :: "('r \<Rightarrow> nat) \<Rightarrow> 'r Parser \<Rightarrow> nat" where
  "left \<mu> p = \<mu> (p_r p) + (if p_ch p = NUL then 0 else 1)"

definition okp :: "('r \<Rightarrow> bool) \<Rightarrow> 'r Parser \<Rightarrow> bool" where
  "okp I p = I (p_r p)"

text \<open>
  \<open>kept \<mu> I p p'\<close>: the state \<open>p'\<close> is within the invariant and has no more left to consume
  than \<open>p\<close>.
\<close>

definition kept :: "('r \<Rightarrow> nat) \<Rightarrow> ('r \<Rightarrow> bool) \<Rightarrow> 'r Parser \<Rightarrow> 'r Parser \<Rightarrow> bool" where
  "kept \<mu> I p p' = (okp I p' \<and> left \<mu> p' \<le> left \<mu> p)"

section \<open>Fuel\<close>

text \<open>
  A run that finishes within some fuel, by returning or by throwing, gives the same
  result with any larger fuel: the results stated below for a fixed fuel are the results
  of the code.
\<close>

lemma skip_space_fuel:
  "skip_space rd n p \<noteq> OutOfFuel \<Longrightarrow> n \<le> m \<Longrightarrow> skip_space rd m p = skip_space rd n p"
proof (induction n arbitrary: p m)
  case 0
  then show ?case by simp
next
  case (Suc n)
  from Suc.prems(2) obtain m' where m: "m = Suc m'" "n \<le> m'" by (cases m) auto
  show ?case
  proof (cases "isspace (p_ch p)")
    case True
    with Suc.prems(1) have "skip_space rd n (skip rd p) \<noteq> OutOfFuel" by simp
    from Suc.IH [OF this m(2)] True m(1) show ?thesis by simp
  next
    case False
    with m(1) show ?thesis by simp
  qed
qed

lemma digit_loop_fuel:
  "digit_loop rd n acc p \<noteq> OutOfFuel \<Longrightarrow> n \<le> m \<Longrightarrow> digit_loop rd m acc p = digit_loop rd n acc p"
proof (induction n arbitrary: acc p m)
  case 0
  then show ?case by simp
next
  case (Suc n)
  from Suc.prems(2) obtain m' where m: "m = Suc m'" "n \<le> m'" by (cases m) auto
  show ?case
  proof (cases "isdigit (p_ch (skip rd p))")
    case True
    with Suc.prems(1) have "digit_loop rd n (acc * 10 + word_of_int (digit_val (p_ch p))) (skip rd p) \<noteq> OutOfFuel" by (simp add: Let_def)
    from Suc.IH [OF this m(2)] True m(1) show ?thesis by (simp add: Let_def)
  next
    case False
    with m(1) show ?thesis by (simp add: Let_def)
  qed
qed

lemma exp_skip_loop_fuel:
  "exp_skip_loop rd n p \<noteq> OutOfFuel \<Longrightarrow> n \<le> m \<Longrightarrow> exp_skip_loop rd m p = exp_skip_loop rd n p"
proof (induction n arbitrary: p m)
  case 0
  then show ?case by simp
next
  case (Suc n)
  from Suc.prems(2) obtain m' where m: "m = Suc m'" "n \<le> m'" by (cases m) auto
  show ?case
  proof (cases "isdigit (p_ch (skip rd p))")
    case True
    with Suc.prems(1) have "exp_skip_loop rd n (skip rd p) \<noteq> OutOfFuel" by (simp add: Let_def)
    from Suc.IH [OF this m(2)] True m(1) show ?thesis by (simp add: Let_def)
  next
    case False
    with m(1) show ?thesis by (simp add: Let_def)
  qed
qed

lemma exp_loop_fuel:
  "exp_loop rd n acc p \<noteq> OutOfFuel \<Longrightarrow> n \<le> m \<Longrightarrow> exp_loop rd m acc p = exp_loop rd n acc p"
proof (induction n arbitrary: acc p m)
  case 0
  then show ?case by simp
next
  case (Suc n)
  from Suc.prems(2) obtain m' where m: "m = Suc m'" "n \<le> m'" by (cases m) auto
  show ?case
  proof (cases "isdigit (p_ch (skip rd p))")
    case True
    with Suc.prems(1) have "exp_loop rd n (acc + (acc * 10 + word_of_int (digit_val (p_ch p)))) (skip rd p) \<noteq> OutOfFuel" by (simp add: Let_def)
    from Suc.IH [OF this m(2)] True m(1) show ?thesis by (simp add: Let_def)
  next
    case False
    with m(1) show ?thesis by (simp add: Let_def)
  qed
qed

lemma dot_loop_fuel:
  "dot_loop fo rd n e acc p \<noteq> OutOfFuel \<Longrightarrow> n \<le> m \<Longrightarrow>
   dot_loop fo rd m e acc p = dot_loop fo rd n e acc p"
proof (induction n arbitrary: e acc p m)
  case 0
  then show ?case by simp
next
  case (Suc n)
  from Suc.prems(2) obtain m' where m: "m = Suc m'" "n \<le> m'" by (cases m) auto
  show ?case
  proof (cases "isdigit (p_ch (skip rd p))")
    case True
    with Suc.prems(1) have "dot_loop fo rd n (f_sub fo e (f_of_int fo 1)) (f_add fo acc (f_mul fo (f_of_int fo (digit_val (p_ch p))) (f_pow fo (f_of_int fo 10) e))) (skip rd p) \<noteq> OutOfFuel" by (simp add: Let_def)
    from Suc.IH [OF this m(2)] True m(1) show ?thesis by (simp add: Let_def)
  next
    case False
    with m(1) show ?thesis by (simp add: Let_def)
  qed
qed

lemma parse_exp_fuel:
  assumes "parse_exp fo rd n acc p \<noteq> OutOfFuel" "n \<le> m"
  shows "parse_exp fo rd m acc p = parse_exp fo rd n acc p"
proof -
  let ?p1 = "skip rd p"
  let ?p2 = "if p_ch ?p1 = CHR ''-'' then skip rd ?p1
             else if p_ch ?p1 = CHR ''+'' then skip rd ?p1 else ?p1"
  show ?thesis
  proof (cases "isdigit (p_ch ?p2)")
    case False
    then show ?thesis by (simp add: parse_exp_def Let_def)
  next
    case d: True
    show ?thesis
    proof (cases "f_is_zero fo acc")
      case True
      with assms(1) d have "exp_skip_loop rd n ?p2 \<noteq> OutOfFuel"
        by (auto simp: parse_exp_def Let_def split: result.splits)
      from exp_skip_loop_fuel [OF this assms(2)] True d show ?thesis
        by (simp add: parse_exp_def Let_def)
    next
      case False
      with assms(1) d have "exp_loop rd n 0 ?p2 \<noteq> OutOfFuel"
        by (auto simp: parse_exp_def Let_def split: result.splits)
      from exp_loop_fuel [OF this assms(2)] False d show ?thesis
        by (simp add: parse_exp_def Let_def)
    qed
  qed
qed

lemma parse_dot_fuel:
  assumes "parse_dot fo rd n acc p \<noteq> OutOfFuel" "n \<le> m"
  shows "parse_dot fo rd m acc p = parse_dot fo rd n acc p"
proof (cases "isdigit (p_ch (skip rd p))")
  case False
  then show ?thesis by (simp add: parse_dot_def Let_def)
next
  case True
  let ?d = "\<lambda>k. dot_loop fo rd k (f_of_int fo (- 1)) acc (skip rd p)"
  from assms(1) True have nf: "?d n \<noteq> OutOfFuel"
    by (auto simp: parse_dot_def Let_def split: result.splits)
  note dl = dot_loop_fuel [OF nf assms(2)]
  show ?thesis
  proof (cases "?d n")
    case (Return yq)
    obtain y q where yq: "yq = (y, q)" by (cases yq)
    show ?thesis
    proof (cases "p_ch q = CHR ''e'' \<or> p_ch q = CHR ''E''")
      case e: True
      with assms(1) True Return yq have "parse_exp fo rd n y q \<noteq> OutOfFuel"
        by (auto simp: parse_dot_def Let_def)
      from parse_exp_fuel [OF this assms(2)] dl True Return yq e show ?thesis
        by (simp add: parse_dot_def Let_def)
    next
      case False
      with dl True Return yq show ?thesis
        by (simp add: parse_dot_def Let_def)
    qed
  next
    case (Throw e)
    with dl True show ?thesis by (simp add: parse_dot_def Let_def)
  next
    case OutOfFuel
    with nf show ?thesis by simp
  qed
qed

lemma parse_digit_fuel:
  assumes "parse_digit fo rd n p \<noteq> OutOfFuel" "n \<le> m"
  shows "parse_digit fo rd m p = parse_digit fo rd n p"
proof -
  let ?p1 = "if p_ch p = CHR ''-'' then skip rd p else p"
  show ?thesis
  proof (cases "p_ch p = CHR ''-'' \<and> \<not> isdigit (p_ch ?p1)")
    case True
    then show ?thesis by (auto simp: parse_digit_def Let_def)
  next
    case ok: False
    let ?d = "\<lambda>k. digit_loop rd k 0 ?p1"
    from assms(1) ok have nf: "?d n \<noteq> OutOfFuel"
      by (auto simp: parse_digit_def Let_def split: result.splits)
    note dl = digit_loop_fuel [OF nf assms(2)]
    show ?thesis
    proof (cases "?d n")
      case (Return yq)
      obtain iv q where yq: "yq = (iv, q)" by (cases yq)
      consider (dot) "p_ch q = CHR ''.''"
        | (ex) "p_ch q \<noteq> CHR ''.''" "p_ch q = CHR ''e'' \<or> p_ch q = CHR ''E''"
        | (int) "p_ch q \<noteq> CHR ''.''" "\<not> (p_ch q = CHR ''e'' \<or> p_ch q = CHR ''E'')"
        by blast
      then show ?thesis
      proof cases
        case dot
        with assms(1) ok Return yq have
          "parse_dot fo rd n (f_of_int fo (sint iv)) q \<noteq> OutOfFuel"
          by (auto simp: parse_digit_def Let_def split: result.splits)
        from parse_dot_fuel [OF this assms(2)] dl ok Return yq dot show ?thesis
          by (simp add: parse_digit_def Let_def)
      next
        case ex
        with assms(1) ok Return yq have
          "parse_exp fo rd n (f_of_int fo (sint iv)) q \<noteq> OutOfFuel"
          by (auto simp: parse_digit_def Let_def split: result.splits)
        from parse_exp_fuel [OF this assms(2)] dl ok Return yq ex show ?thesis
          by (simp add: parse_digit_def Let_def)
      next
        case int
        with dl ok Return yq show ?thesis
          by (simp add: parse_digit_def Let_def)
      qed
    next
      case (Throw e)
      with dl ok show ?thesis by (simp add: parse_digit_def Let_def)
    next
      case OutOfFuel
      with nf show ?thesis by simp
    qed
  qed
qed

lemma hex_loop_no_fuel: "hex_loop rd k hex p \<noteq> OutOfFuel"
  by (induction k arbitrary: hex p) (simp_all add: Let_def)

lemma escape_no_fuel: "escape rd p \<noteq> OutOfFuel"
  using hex_loop_no_fuel [of rd 4 0 p]
  by (auto simp: escape_def Let_def split: result.splits)

lemma string_loop_fuel:
  "string_loop rd n ss p \<noteq> OutOfFuel \<Longrightarrow> n \<le> m \<Longrightarrow> string_loop rd m ss p = string_loop rd n ss p"
proof (induction n arbitrary: ss p m)
  case 0
  then show ?case by simp
next
  case (Suc n)
  from Suc.prems(2) obtain m' where m: "m = Suc m'" "n \<le> m'" by (cases m) auto
  consider (stop) "p_ch p = NUL \<or> p_ch p = DQUOTE"
    | (bslash) "p_ch p \<noteq> NUL" "p_ch p \<noteq> DQUOTE" "p_ch p = BSLASH"
    | (other) "p_ch p \<noteq> NUL" "p_ch p \<noteq> DQUOTE" "p_ch p \<noteq> BSLASH"
    by blast
  then show ?case
  proof cases
    case stop
    with m(1) show ?thesis by auto
  next
    case bslash
    show ?thesis
    proof (cases "escape rd (skip rd p)")
      case (Return bq)
      obtain bytes q where bq: "bq = (bytes, q)" by (cases bq)
      with Suc.prems(1) bslash Return have
        "string_loop rd n (ss @ bytes) (skip rd q) \<noteq> OutOfFuel" by simp
      from Suc.IH [OF this m(2)] bslash Return bq m(1) show ?thesis by simp
    next
      case (Throw e)
      with bslash m(1) show ?thesis by simp
    next
      case OutOfFuel
      with escape_no_fuel show ?thesis by blast
    qed
  next
    case other
    with Suc.prems(1) have "string_loop rd n (ss @ [p_ch p]) (skip rd p) \<noteq> OutOfFuel" by simp
    from Suc.IH [OF this m(2)] other m(1) show ?thesis by simp
  qed
qed

lemma parse_string_fuel:
  "parse_string rd n p \<noteq> OutOfFuel \<Longrightarrow> n \<le> m \<Longrightarrow> parse_string rd m p = parse_string rd n p"
  unfolding parse_string_def by (rule string_loop_fuel)

lemma parse_string_value_fuel:
  "(parse_string_value rd n p :: ('f json \<times> 'r Parser) result) \<noteq> OutOfFuel \<Longrightarrow> n \<le> m \<Longrightarrow>
   (parse_string_value rd m p :: ('f json \<times> 'r Parser) result) = parse_string_value rd n p"
proof -
  assume a: "(parse_string_value rd n p :: ('f json \<times> 'r Parser) result) \<noteq> OutOfFuel" "n \<le> m"
  then have "parse_string rd n p \<noteq> OutOfFuel"
    by (auto simp: parse_string_value_def split: result.splits)
  then have "parse_string rd m p = parse_string rd n p" using a(2) by (rule parse_string_fuel)
  then show ?thesis by (simp add: parse_string_value_def)
qed

lemma expect_no_fuel: "expect rd cs p \<noteq> OutOfFuel"
  by (induction cs arbitrary: p) simp_all


lemma parse_fuel_all:
  fixes fo :: "'f float_ops" and rd :: "'r \<Rightarrow> char \<times> 'r"
  shows "(\<forall>p m. parse fo rd n p \<noteq> OutOfFuel \<longrightarrow> n \<le> m \<longrightarrow> parse fo rd m p = parse fo rd n p)
   \<and> (\<forall>arr p m. array_loop fo rd n arr p \<noteq> OutOfFuel \<longrightarrow> n \<le> m \<longrightarrow>
         array_loop fo rd m arr p = array_loop fo rd n arr p)
   \<and> (\<forall>obj p m. object_loop fo rd n obj p \<noteq> OutOfFuel \<longrightarrow> n \<le> m \<longrightarrow>
         object_loop fo rd m obj p = object_loop fo rd n obj p)"
proof (induction n)
  case 0
  show ?case by simp
next
  case (Suc n)
  then have IH1: "\<And>p m. parse fo rd n p \<noteq> OutOfFuel \<Longrightarrow> n \<le> m \<Longrightarrow>
        parse fo rd m p = parse fo rd n p"
    and IH2: "\<And>arr p m. array_loop fo rd n arr p \<noteq> OutOfFuel \<Longrightarrow> n \<le> m \<Longrightarrow>
        array_loop fo rd m arr p = array_loop fo rd n arr p"
    and IH3: "\<And>obj p m. object_loop fo rd n obj p \<noteq> OutOfFuel \<Longrightarrow> n \<le> m \<Longrightarrow>
        object_loop fo rd m obj p = object_loop fo rd n obj p"
    by blast+
  have P1: "parse fo rd m p = parse fo rd (Suc n) p"
    if nf: "parse fo rd (Suc n) p \<noteq> OutOfFuel" and le: "Suc n \<le> m" for p m
  proof -
    from le obtain m' where m: "m = Suc m'" "n \<le> m'" by (cases m) auto
    let ?c = "p_ch p"
    consider (ws) "?c = CHR '' '' \<or> ?c = HT \<or> ?c = CR \<or> ?c = VT \<or> ?c = FF \<or> ?c = LF"
      | (num) "\<not> (?c = CHR '' '' \<or> ?c = HT \<or> ?c = CR \<or> ?c = VT \<or> ?c = FF \<or> ?c = LF)"
              "?c = CHR ''-'' \<or> isdigit ?c"
      | (str) "\<not> (?c = CHR '' '' \<or> ?c = HT \<or> ?c = CR \<or> ?c = VT \<or> ?c = FF \<or> ?c = LF)"
              "\<not> (?c = CHR ''-'' \<or> isdigit ?c)" "?c = DQUOTE"
      | (arr) "\<not> (?c = CHR '' '' \<or> ?c = HT \<or> ?c = CR \<or> ?c = VT \<or> ?c = FF \<or> ?c = LF)"
              "\<not> (?c = CHR ''-'' \<or> isdigit ?c)" "?c = CHR ''[''"
      | (obj) "\<not> (?c = CHR '' '' \<or> ?c = HT \<or> ?c = CR \<or> ?c = VT \<or> ?c = FF \<or> ?c = LF)"
              "\<not> (?c = CHR ''-'' \<or> isdigit ?c)" "?c = CHR ''{''"
      | (other) "\<not> (?c = CHR '' '' \<or> ?c = HT \<or> ?c = CR \<or> ?c = VT \<or> ?c = FF \<or> ?c = LF)"
              "\<not> (?c = CHR ''-'' \<or> isdigit ?c)" "?c \<noteq> DQUOTE" "?c \<noteq> CHR ''[''" "?c \<noteq> CHR ''{''"
      by blast
    then show ?thesis
    proof cases
      case ws
      with nf have "parse fo rd n (skip rd p) \<noteq> OutOfFuel" by (simp add: Let_def)
      from IH1 [OF this m(2)] ws m(1) show ?thesis by (simp add: Let_def)
    next
      case num
      with nf have "parse_digit fo rd n p \<noteq> OutOfFuel" by (simp add: Let_def)
      from parse_digit_fuel [OF this m(2)] num m(1) show ?thesis by (simp add: Let_def)
    next
      case str
      with nf have "(parse_string_value rd n p :: ('f json \<times> 'r Parser) result) \<noteq> OutOfFuel"
        by (simp add: Let_def)
      from parse_string_value_fuel [OF this m(2)] str m(1) show ?thesis by (simp add: Let_def)
    next
      case arr
      with nf have "array_loop fo rd n [] (skip rd p) \<noteq> OutOfFuel" by (simp add: Let_def)
      from IH2 [OF this m(2)] arr m(1) show ?thesis by (simp add: Let_def)
    next
      case obj
      with nf have "object_loop fo rd n [] (skip rd p) \<noteq> OutOfFuel" by (simp add: Let_def)
      from IH3 [OF this m(2)] obj m(1) show ?thesis by (simp add: Let_def)
    next
      case other
      with m(1) show ?thesis by (simp add: Let_def)
    qed
  qed
  have P2: "array_loop fo rd m arr p = array_loop fo rd (Suc n) arr p"
    if nf: "array_loop fo rd (Suc n) arr p \<noteq> OutOfFuel" and le: "Suc n \<le> m" for arr p m
  proof (cases "p_ch p = NUL")
    case True
    from le obtain m' where m: "m = Suc m'" "n \<le> m'" by (cases m) auto
    with True show ?thesis by simp
  next
    case nz: False
    from le obtain m' where m: "m = Suc m'" "n \<le> m'" by (cases m) auto
    from nf nz have "parse fo rd n p \<noteq> OutOfFuel" by (auto split: result.splits)
    note e1 = IH1 [OF this m(2)]
    show ?thesis
    proof (cases "parse fo rd n p")
      case (Return vq)
      obtain v1 p1 where vq: "vq = (v1, p1)" by (cases vq)
      from nf nz Return vq have "skip_space rd n p1 \<noteq> OutOfFuel" by (auto split: result.splits)
      note e2 = skip_space_fuel [OF this m(2)]
      show ?thesis
      proof (cases "skip_space rd n p1")
        case r2: (Return p2)
        show ?thesis
        proof (cases "p_ch p2 = CHR '','' ")
          case True
          with nf nz Return vq r2 have
            "array_loop fo rd n (arr @ [v1]) (skip rd p2) \<noteq> OutOfFuel" by simp
          from IH2 [OF this m(2)] True nz Return vq r2 e1 e2 m(1) show ?thesis by simp
        next
          case False
          with nz Return vq r2 e1 e2 m(1) show ?thesis by simp
        qed
      next
        case (Throw e)
        with nz Return vq e1 e2 m(1) show ?thesis by simp
      next
        case OutOfFuel
        with nf nz Return vq show ?thesis by simp
      qed
    next
      case (Throw e)
      with nz e1 m(1) show ?thesis by simp
    next
      case OutOfFuel
      with nf nz show ?thesis by simp
    qed
  qed
  have P3: "object_loop fo rd m obj p = object_loop fo rd (Suc n) obj p"
    if nf: "object_loop fo rd (Suc n) obj p \<noteq> OutOfFuel" and le: "Suc n \<le> m" for obj p m
  proof (cases "p_ch p = NUL")
    case True
    from le obtain m' where m: "m = Suc m'" "n \<le> m'" by (cases m) auto
    with True show ?thesis by simp
  next
    case nz: False
    from le obtain m' where m: "m = Suc m'" "n \<le> m'" by (cases m) auto
    from nf nz have "skip_space rd n p \<noteq> OutOfFuel" by (auto split: result.splits)
    note e1 = skip_space_fuel [OF this m(2)]
    show ?thesis
    proof (cases "skip_space rd n p")
      case r1: (Return p1)
      show ?thesis
      proof (cases "p_ch p1 = DQUOTE")
        case q: True
        from nf nz r1 q have "parse_string rd n p1 \<noteq> OutOfFuel" by (auto split: result.splits)
        note e2 = parse_string_fuel [OF this m(2)]
        show ?thesis
        proof (cases "parse_string rd n p1")
          case r2: (Return kq)
          obtain key p2 where kq: "kq = (key, p2)" by (cases kq)
          from nf nz r1 q r2 kq have "skip_space rd n p2 \<noteq> OutOfFuel"
            by (auto split: result.splits)
          note e3 = skip_space_fuel [OF this m(2)]
          show ?thesis
          proof (cases "skip_space rd n p2")
            case r3: (Return p3)
            show ?thesis
            proof (cases "p_ch p3 = CHR '':''")
              case c: True
              from nf nz r1 q r2 kq r3 c have "parse fo rd n (skip rd p3) \<noteq> OutOfFuel"
                by (auto split: result.splits)
              note e4 = IH1 [OF this m(2)]
              show ?thesis
              proof (cases "parse fo rd n (skip rd p3)")
                case r4: (Return vq)
                obtain v1 p4 where vq: "vq = (v1, p4)" by (cases vq)
                from nf nz r1 q r2 kq r3 c r4 vq have "skip_space rd n p4 \<noteq> OutOfFuel"
                  by (auto split: result.splits)
                note e5 = skip_space_fuel [OF this m(2)]
                show ?thesis
                proof (cases "skip_space rd n p4")
                  case r5: (Return p5)
                  show ?thesis
                  proof (cases "p_ch p5 = CHR '',''")
                    case True
                    with nf nz r1 q r2 kq r3 c r4 vq r5 have
                      "object_loop fo rd n (obj_set obj key v1) (skip rd p5) \<noteq> OutOfFuel"
                      by simp
                    from IH3 [OF this m(2)] True nz r1 q r2 kq r3 c r4 vq r5 e1 e2 e3 e4 e5 m(1)
                    show ?thesis by simp
                  next
                    case False
                    with nz r1 q r2 kq r3 c r4 vq r5 e1 e2 e3 e4 e5 m(1) show ?thesis by simp
                  qed
                next
                  case (Throw e)
                  with nz r1 q r2 kq r3 c r4 vq e1 e2 e3 e4 e5 m(1) show ?thesis by simp
                next
                  case OutOfFuel
                  with nf nz r1 q r2 kq r3 c r4 vq show ?thesis by simp
                qed
              next
                case (Throw e)
                with nz r1 q r2 kq r3 c e1 e2 e3 e4 m(1) show ?thesis by simp
              next
                case OutOfFuel
                with nf nz r1 q r2 kq r3 c show ?thesis by simp
              qed
            next
              case False
              with nz r1 q r2 kq r3 e1 e2 e3 m(1) show ?thesis by simp
            qed
          next
            case (Throw e)
            with nz r1 q r2 kq e1 e2 e3 m(1) show ?thesis by simp
          next
            case OutOfFuel
            with nf nz r1 q r2 kq show ?thesis by simp
          qed
        next
          case (Throw e)
          with nz r1 q e1 e2 m(1) show ?thesis by simp
        next
          case OutOfFuel
          with nf nz r1 q show ?thesis by simp
        qed
      next
        case False
        with nz r1 e1 m(1) show ?thesis by simp
      qed
    next
      case (Throw e)
      with nz e1 m(1) show ?thesis by simp
    next
      case OutOfFuel
      with nf nz show ?thesis by simp
    qed
  qed
  from P1 P2 P3 show ?case by blast
qed

lemma deserialize_fuel:
  assumes "deserialize fo n str \<noteq> OutOfFuel" "n \<le> m"
  shows "deserialize fo m str = deserialize fo n str"
proof -
  from assms(1) have "parse fo StringReader_rdch n (Parser_init StringReader_rdch str) \<noteq> OutOfFuel"
    by (auto simp: deserialize_def split: result.splits)
  with parse_fuel_all [of fo StringReader_rdch n] assms(2)
  have "parse fo StringReader_rdch m (Parser_init StringReader_rdch str)
          = parse fo StringReader_rdch n (Parser_init StringReader_rdch str)"
    by blast
  then show ?thesis by (simp add: deserialize_def)
qed

lemma deserialize_stream_fuel:
  assumes "deserialize_stream fo n s \<noteq> OutOfFuel" "n \<le> m"
  shows "deserialize_stream fo m s = deserialize_stream fo n s"
proof -
  let ?p = "Parser_init StreamReader_rdch (StreamReader_init s)"
  from assms(1) have "parse fo StreamReader_rdch n ?p \<noteq> OutOfFuel"
    by (auto simp: deserialize_stream_def split: result.splits)
  with parse_fuel_all [of fo StreamReader_rdch n] assms(2)
  have "parse fo StreamReader_rdch m ?p = parse fo StreamReader_rdch n ?p"
    by blast
  then show ?thesis by (simp add: deserialize_stream_def)
qed

section \<open>Round trip, character sources, empty containers\<close>

text \<open>
  C1. Round trip: \<open>deserialize(serialize(v))\<close> returns a Value equal to \<open>v\<close> for every \<open>v\<close>
  without floats. The code does not do this. \<open>StringReader::rdch\<close> returns \<open>*++str_\<close>, the
  character after the one the pointer is at, so the parser that \<open>deserialize(const char*)\<close>
  builds never sees the first character of the text: the integer 12 comes back as 2, and
  \<open>null\<close> is read as \<open>ull\<close> and rejected. The empty array does not come back through the
  stream reader either, since \<open>parse_array\<close> parses a value before it looks for \<open>]\<close>.
\<close>

theorem C1_round_trip_fails:
  "serialize exact_float (JInt 12) = ''12''
   \<and> deserialize exact_float 10 (serialize exact_float (JInt 12)) = Return (JInt 2)
   \<and> deserialize exact_float 10 (serialize exact_float JNull) = Throw UnexpectedToken
   \<and> deserialize_stream exact_float 10 (stream_of (serialize exact_float (JArray [])))
       = Throw UnexpectedToken"
  by code_simp

text \<open>
  The two readers on any text. A StreamReader over a stream that holds \<open>s\<close> returns the
  characters of \<open>s\<close> in order and then the null sentinel; a StringReader over \<open>s\<close>, a
  text without null bytes, returns the characters of \<open>s\<close> after the first and then the
  null sentinel.
\<close>

lemma StreamReader_init_inv: "reader_inv (StreamReader_init (stream_of s))"
  by (simp add: reader_inv_def StreamReader_init_def stream_of_def)

lemma StreamReader_init_pending: "pending (StreamReader_init (stream_of s)) = s"
  by (simp add: pending_def StreamReader_init_def stream_of_def)

lemma StreamReader_rdch_step:
  assumes "reader_inv s"
  shows "reader_inv (snd (StreamReader_rdch s))
         \<and> fst (StreamReader_rdch s) = deref (pending s)
         \<and> pending (snd (StreamReader_rdch s)) = tl (pending s)"
proof (cases "sr_idx s + 1 < sr_len s")
  case True
  with assms have "sr_idx s + 1 < length (take (sr_len s) (sr_buf s))"
    by (simp add: reader_inv_def)
  then have "drop (Suc (sr_idx s)) (take (sr_len s) (sr_buf s))
        = sr_buf s ! Suc (sr_idx s) # drop (Suc (Suc (sr_idx s))) (take (sr_len s) (sr_buf s))"
    using True by (simp flip: Cons_nth_drop_Suc)
  with True assms show ?thesis
    by (simp add: StreamReader_rdch_def Let_def pending_def reader_inv_def)
next
  case False
  then have p: "pending s = content (sr_in s)"
    by (simp add: pending_def)
  show ?thesis
  proof (cases "good (sr_in s)")
    case g: True
    show ?thesis
    proof (cases "content (sr_in s)")
      case Nil
      with False g assms p show ?thesis
        by (simp add: StreamReader_rdch_def Let_def pending_def reader_inv_def istream_read_def)
    next
      case (Cons c cs)
      with False g assms p show ?thesis
        by (auto simp: StreamReader_rdch_def Let_def pending_def reader_inv_def istream_read_def
                       min_def nth_append take_Cons' drop_Cons')
    qed
  next
    case ng: False
    with False assms p show ?thesis
      by (simp add: StreamReader_rdch_def Let_def pending_def reader_inv_def)
  qed
qed

lemma rdch_seq_StreamReader:
  "reader_inv s \<Longrightarrow>
   rdch_seq StreamReader_rdch k s = take k (pending s) @ replicate (k - length (pending s)) NUL"
proof (induction k arbitrary: s)
  case 0
  show ?case by simp
next
  case (Suc k)
  note st = StreamReader_rdch_step [OF Suc.prems]
  obtain c s' where r: "StreamReader_rdch s = (c, s')" by (cases "StreamReader_rdch s")
  with st have i: "reader_inv s'" and c: "c = deref (pending s)" and p: "pending s' = tl (pending s)"
    by simp_all
  from Suc.IH [OF i] r c p show ?case
    by (cases "pending s") (simp_all add: replicate_Suc [symmetric] del: replicate_Suc)
qed

lemma StreamReader_yields_text:
  "rdch_seq StreamReader_rdch k (StreamReader_init (stream_of s)) = take k (s @ replicate k NUL)"
  by (simp add: rdch_seq_StreamReader StreamReader_init_inv StreamReader_init_pending min_def)

lemma rdch_seq_StringReader:
  "NUL \<notin> set s \<Longrightarrow>
   rdch_seq StringReader_rdch k s = take k (tl s) @ replicate (k - length (tl s)) NUL"
proof (induction k arbitrary: s)
  case 0
  show ?case by simp
next
  case (Suc k)
  show ?case
  proof (cases s)
    case Nil
    with Suc.IH [of "[]"] show ?thesis
      by (simp add: StringReader_rdch_def)
  next
    case (Cons c cs)
    with Suc.prems have "c \<noteq> NUL" "NUL \<notin> set cs" by auto
    with Suc.IH [of cs] Cons show ?thesis
      by (cases cs) (simp_all add: StringReader_rdch_def)
  qed
qed


lemma StringReader_drops_first:
  "NUL \<notin> set s \<Longrightarrow> rdch_seq StringReader_rdch k s = take k (tl s @ replicate k NUL)"
  by (simp add: rdch_seq_StringReader min_def)

text \<open>
  C2. The two character sources return the same sequence of characters for the same
  text, every character in order and then the null sentinel. They do not: on \<open>abc\<close> the
  StreamReader returns \<open>a\<close>, \<open>b\<close>, \<open>c\<close> and then the sentinel, the StringReader returns
  \<open>b\<close>, \<open>c\<close> and then the sentinel; and the text \<open>12\<close> deserializes to 12 from a stream and
  to 2 from a string.
\<close>

theorem C2_readers_differ:
  "rdch_seq StreamReader_rdch 5 (StreamReader_init (stream_of ''abc''))
     = [CHR ''a'', CHR ''b'', CHR ''c'', NUL, NUL]
   \<and> rdch_seq StringReader_rdch 5 ''abc'' = [CHR ''b'', CHR ''c'', NUL, NUL, NUL]
   \<and> deserialize_stream exact_float 10 (stream_of ''12'') = Return (JInt 12)
   \<and> deserialize exact_float 10 ''12'' = Return (JInt 2)"
  by code_simp

text \<open>
  C3. Parsing \<open>[]\<close> yields an empty Array and parsing \<open>{}\<close> an empty Object. The code
  throws \<open>UnexpectedToken\<close> on both: after \<open>[\<close> the loop of \<open>parse_array\<close> calls \<open>parse\<close> on
  the lookahead \<open>]\<close>, and after \<open>{\<close> the loop of \<open>parse_object\<close> breaks on a lookahead that
  is not a quote. This holds for the parser itself (entered at the \<open>[\<close> or \<open>{\<close>), for the
  stream reader, and for the string reader whether or not a first character is there
  for it to drop.
\<close>

theorem C3_empty_containers_rejected:
  "parse exact_float StreamReader_rdch 10
       (Parser_init StreamReader_rdch (StreamReader_init (stream_of ''[]'')))
     = Throw UnexpectedToken
   \<and> parse exact_float StreamReader_rdch 10
       (Parser_init StreamReader_rdch (StreamReader_init (stream_of ''{}'')))
     = Throw UnexpectedToken
   \<and> deserialize_stream exact_float 10 (stream_of ''[]'') = Throw UnexpectedToken
   \<and> deserialize_stream exact_float 10 (stream_of ''{}'') = Throw UnexpectedToken
   \<and> deserialize exact_float 10 ''[]'' = Throw UnexpectedToken
   \<and> deserialize exact_float 10 ''{}'' = Throw UnexpectedToken
   \<and> deserialize exact_float 10 '' []'' = Throw UnexpectedToken
   \<and> deserialize exact_float 10 '' {}'' = Throw UnexpectedToken
   \<and> deserialize_stream exact_float 10 (stream_of ''[1]'') = Return (JArray [JInt 1])"
  by code_simp

section \<open>Numeric exponents and unicode escapes\<close>

text \<open>
  C4. The exponent digits \<open>D\<close> scale the float by ten to the signed decimal value of
  \<open>D\<close>. The loop of \<open>parse_exp\<close> computes \<open>exp += exp * 10 + ch_ - '0'\<close>, which is
  \<open>exp = 11 * exp + digit\<close>: the digits \<open>15\<close> give the exponent 16, and \<open>1e15\<close> parses, in
  exact arithmetic, to \<open>10 ^ 16\<close>. A one-digit exponent is right (\<open>1.234e5\<close> is 123400), and
  a missing exponent digit is rejected.
\<close>

theorem C4_exponent_digits_wrong:
  "exp_loop StringReader_rdch 5 0 \<lparr>p_r = ''15'', p_ch = CHR ''1''\<rparr>
     = Return (16, \<lparr>p_r = [], p_ch = NUL\<rparr>)
   \<and> deserialize_stream exact_float 10 (stream_of ''1e15'') = Return (JFloat (10 ^ 16))
   \<and> deserialize_stream exact_float 10 (stream_of ''1.234e5'') = Return (JFloat 123400)
   \<and> deserialize_stream exact_float 10 (stream_of ''1e'') = Throw UnexpectedToken
   \<and> deserialize_stream exact_float 10 (stream_of ''1e+'') = Throw UnexpectedToken"
  by code_simp

text \<open>
  C8. The escape \<open>u\<close> with four hex digits of value \<open>h\<close> appends the bytes
  \<open>0xE0|(h>>12)\<close>, \<open>0x80|((h>>6)&0x3F)\<close>, \<open>0x80|(h&0x3F)\<close>. The code differs in two places.
  A hex letter adds \<open>ch_ - 'a'\<close> (or \<open>ch_ - 'A'\<close>), which is its value less 10: the escape
  with the digits \<open>0a00\<close> is read as \<open>h = 0\<close> and gives \<open>E0 80 80\<close>, where the claim has
  \<open>E0 A8 80\<close>. The second byte is \<open>0x80 | (hex >> 6)\<close> without the mask: the digits \<open>1000\<close>
  give \<open>E1 C0 80\<close>, where the claim has \<open>E1 80 80\<close>. With decimal digits only and bit 12
  clear the bytes are right (the digits \<open>0800\<close> give \<open>E0 A0 80\<close>), and a character that is
  not a hex digit is rejected.
\<close>

theorem C8_unicode_escape_wrong:
  "parse_string StringReader_rdch 10
       \<lparr>p_r = [DQUOTE, BSLASH, CHR ''u'', CHR ''0'', CHR ''a'', CHR ''0'', CHR ''0'', DQUOTE],
        p_ch = DQUOTE\<rparr>
     = Return ([CHR 0xE0, CHR 0x80, CHR 0x80], \<lparr>p_r = [], p_ch = NUL\<rparr>)
   \<and> parse_string StringReader_rdch 10
       \<lparr>p_r = [DQUOTE, BSLASH, CHR ''u'', CHR ''1'', CHR ''0'', CHR ''0'', CHR ''0'', DQUOTE],
        p_ch = DQUOTE\<rparr>
     = Return ([CHR 0xE1, CHR 0xC0, CHR 0x80], \<lparr>p_r = [], p_ch = NUL\<rparr>)
   \<and> parse_string StringReader_rdch 10
       \<lparr>p_r = [DQUOTE, BSLASH, CHR ''u'', CHR ''0'', CHR ''8'', CHR ''0'', CHR ''0'', DQUOTE],
        p_ch = DQUOTE\<rparr>
     = Return ([CHR 0xE0, CHR 0xA0, CHR 0x80], \<lparr>p_r = [], p_ch = NUL\<rparr>)
   \<and> parse_string StringReader_rdch 10
       \<lparr>p_r = [DQUOTE, BSLASH, CHR ''u'', CHR ''0'', CHR ''8'', CHR ''g'', CHR ''0'', DQUOTE],
        p_ch = DQUOTE\<rparr>
     = Throw UnexpectedToken"
  by code_simp

section \<open>Sharing, release and assignment\<close>

text \<open>
  What holds of any Value on a live box. A copy shares the box and adds one to its
  count. \<open>decref\<close> takes one off and, at 0, deletes the box through the pointer member
  of \<open>destory\<close>. The last release of a String or an Array box is a \<open>delete\<close> through a
  pointer of the other wrapper type. An assignment \<open>a = a\<close> leaves the heap as it was
  when the box has another owner, and never completes when \<open>a\<close> is the only owner: the
  box is gone when \<open>incref\<close> reaches for it.
\<close>

lemma box_at_Some_length: "box_at h a = Some w \<Longrightarrow> a < length h \<and> h ! a = Live w"
  by (auto simp: box_at_def split: if_splits cell.splits)

lemma box_at_Freed: "box_at (h[a := Freed]) a = None"
  by (simp add: box_at_def)

lemma Value_copy_shares:
  assumes "v_type v = JSON_ARRAY \<or> v_type v = JSON_OBJECT \<or> v_type v = JSON_STRING"
    and "ptr (v_data v) = Some a" and "box_at h a = Some w"
  shows "Value_copy v h = Ok (v, h[a := Live (w\<lparr>uses := uses w + 1\<rparr>)])"
  using assms by (auto simp: Value_copy_def incref_def Wrapper_incref_def)

lemma delete_Wrapper_frees:
  assumes "delete_Wrapper n t d h = Ok h'" "ptr d = Some a"
  shows "box_at h' a = None"
proof (cases n)
  case 0
  with assms show ?thesis by simp
next
  case (Suc k)
  show ?thesis
  proof (cases "box_at h a")
    case None
    with assms Suc show ?thesis by simp
  next
    case (Some w)
    with assms Suc obtain h1 where "h' = h1[a := Freed]"
      by (auto split: if_splits outcome.splits)
    then show ?thesis by (simp add: box_at_Freed)
  qed
qed

lemma decref_boxed:
  assumes "v_type v = JSON_ARRAY \<or> v_type v = JSON_OBJECT \<or> v_type v = JSON_STRING"
    and "ptr (v_data v) = Some a" and "box_at h a = Some w"
  shows "decref (Suc n) v h =
     (if uses w - 1 = 0
      then delete_Wrapper n
             (if v_type v = JSON_ARRAY then JSON_STRING
              else if v_type v = JSON_OBJECT then JSON_OBJECT else JSON_ARRAY)
             (v_data v) (h[a := Live (w\<lparr>uses := uses w - 1\<rparr>)])
      else Ok (h[a := Live (w\<lparr>uses := uses w - 1\<rparr>)]))"
proof -
  have wd: "Wrapper_decref (v_data v) h = Ok (uses w - 1, h[a := Live (w\<lparr>uses := uses w - 1\<rparr>)])"
    using assms by (simp add: Wrapper_decref_def)
  from assms(1) show ?thesis
    by (elim disjE) (simp_all add: wd)
qed

lemma incref_dangling:
  assumes "v_type v = JSON_ARRAY \<or> v_type v = JSON_OBJECT \<or> v_type v = JSON_STRING"
    and "ptr (v_data v) = Some a" and "box_at h a = None"
  shows "incref v h = Undefined (DanglingPointer a)"
  using assms by (auto simp: incref_def Wrapper_incref_def)

lemma copy_assign_self_sole_owner:
  assumes "v_type v = JSON_ARRAY \<or> v_type v = JSON_OBJECT \<or> v_type v = JSON_STRING"
    and "ptr (v_data v) = Some a" and "box_at h a = Some w" and "uses w = 1"
  shows "copy_assign n v v h \<noteq> Ok r"
proof (cases n)
  case 0
  then show ?thesis by (simp add: copy_assign_def)
next
  case (Suc k)
  show ?thesis
  proof (cases "decref (Suc k) v h")
    case (Ok h1)
    with decref_boxed [OF assms(1-3), of k] assms(4) obtain t where
      "delete_Wrapper k t (v_data v) (h[a := Live (w\<lparr>uses := uses w - 1\<rparr>)]) = Ok h1"
      by simp
    then have "box_at h1 a = None" using assms(2) by (rule delete_Wrapper_frees)
    with incref_dangling [OF assms(1,2)] Ok Suc show ?thesis
      by (simp add: copy_assign_def)
  next
    case (Raise e)
    with Suc show ?thesis by (simp add: copy_assign_def)
  next
    case (Undefined f)
    with Suc show ?thesis by (simp add: copy_assign_def)
  next
    case Exhausted
    with Suc show ?thesis by (simp add: copy_assign_def)
  qed
qed

lemma copy_assign_self_shared:
  assumes "v_type v = JSON_ARRAY \<or> v_type v = JSON_OBJECT \<or> v_type v = JSON_STRING"
    and "ptr (v_data v) = Some a" and "box_at h a = Some w" and "uses w \<noteq> 1"
  shows "copy_assign (Suc n) v v h = Ok (v, h)"
proof -
  from assms(3) have len: "a < length h" and ha: "h ! a = Live w"
    using box_at_Some_length by blast+
  let ?h1 = "h[a := Live (w\<lparr>uses := uses w - 1\<rparr>)]"
  have d: "decref (Suc n) v h = Ok ?h1"
    using decref_boxed [OF assms(1-3), of n] assms(4) by simp
  have b: "box_at ?h1 a = Some (w\<lparr>uses := uses w - 1\<rparr>)"
    using len by (simp add: box_at_def)
  have "?h1[a := Live (w\<lparr>uses := uses w\<rparr>)] = h"
    using len ha by (simp add: list_update_same_conv)
  then have i: "incref v ?h1 = Ok h"
    using assms(1,2) b by (auto simp: incref_def Wrapper_incref_def)
  from d i show ?thesis by (simp add: copy_assign_def)
qed

lemma last_release_String:
  assumes "v_type v = JSON_STRING" "ptr (v_data v) = Some a"
    and "box_at h a = Some w" "uses w = 1" "w_value w = PString str"
  shows "Value_destroy (Suc (Suc n)) v h = Undefined (WrongTypeDelete JSON_ARRAY (PString str))"
proof -
  let ?h1 = "h[a := Live (w\<lparr>uses := uses w - 1\<rparr>)]"
  from assms(3) have len: "a < length h" using box_at_Some_length by blast
  then have b: "box_at ?h1 a = Some (w\<lparr>uses := uses w - 1\<rparr>)" by (simp add: box_at_def)
  from decref_boxed [of v a h w "Suc n"] assms have
    "decref (Suc (Suc n)) v h = delete_Wrapper (Suc n) JSON_ARRAY (v_data v) ?h1"
    by simp
  with assms(2,5) b show ?thesis by (simp add: Value_destroy_def)
qed

lemma last_release_Array:
  assumes "v_type v = JSON_ARRAY" "ptr (v_data v) = Some a"
    and "box_at h a = Some w" "uses w = 1" "w_value w = PArray arr"
  shows "Value_destroy (Suc (Suc n)) v h = Undefined (WrongTypeDelete JSON_STRING (PArray arr))"
proof -
  let ?h1 = "h[a := Live (w\<lparr>uses := uses w - 1\<rparr>)]"
  from assms(3) have len: "a < length h" using box_at_Some_length by blast
  then have b: "box_at ?h1 a = Some (w\<lparr>uses := uses w - 1\<rparr>)" by (simp add: box_at_def)
  from decref_boxed [of v a h w "Suc n"] assms have
    "decref (Suc (Suc n)) v h = delete_Wrapper (Suc n) JSON_STRING (v_data v) ?h1"
    by simp
  with assms(2,5) b show ?thesis by (simp add: Value_destroy_def)
qed

text \<open>
  C5. A copy shares the box and increments its count, a mutation through the copy is
  seen through the original, and the box is freed exactly once, by the release that
  brings the count to 0. The first two hold: after \<open>Value a = Array{1}; Value b = a;\<close> the
  box has count 2, and \<open>b.insert(7)\<close> changes the one box. Destroying \<open>b\<close> leaves count 1.
  Destroying \<open>a\<close> brings the count to 0 and calls \<open>destory<Array>\<close>, which deletes
  \<open>data_.sptr\<close>: the Array box is deleted as a \<open>Wrapper<String>\<close>, which is undefined,
  and the same happens to a String box, deleted through \<open>data_.aptr\<close>. Only an Object box
  is deleted as what it is.
\<close>

theorem C5_last_release_deletes_as_wrong_type:
  "Value_Array [Value_Int 1] []
     = (\<lparr>v_type = JSON_ARRAY, v_data = aptr 0\<rparr>,
        [Live \<lparr>w_value = PArray [Value_Int 1], uses = 1\<rparr>])
   \<and> Value_copy \<lparr>v_type = JSON_ARRAY, v_data = aptr 0\<rparr>
         [Live \<lparr>w_value = PArray [Value_Int 1], uses = 1\<rparr>]
     = Ok (\<lparr>v_type = JSON_ARRAY, v_data = aptr 0\<rparr>,
           [Live \<lparr>w_value = PArray [Value_Int 1], uses = 2\<rparr>])
   \<and> insert_Value \<lparr>v_type = JSON_ARRAY, v_data = aptr 0\<rparr> (Value_Int 7)
         [Live \<lparr>w_value = PArray [Value_Int 1], uses = 2\<rparr>]
     = Ok (\<lparr>v_type = JSON_ARRAY, v_data = aptr 0\<rparr>,
           [Live \<lparr>w_value = PArray [Value_Int 1, Value_Int 7], uses = 2\<rparr>])
   \<and> Value_destroy 5 \<lparr>v_type = JSON_ARRAY, v_data = aptr 0\<rparr>
         [Live \<lparr>w_value = PArray [Value_Int 1, Value_Int 7], uses = 2\<rparr>]
     = Ok [Live \<lparr>w_value = PArray [Value_Int 1, Value_Int 7], uses = 1\<rparr>]
   \<and> Value_destroy 5 \<lparr>v_type = JSON_ARRAY, v_data = aptr 0\<rparr>
         [Live \<lparr>w_value = PArray [Value_Int 1, Value_Int 7], uses = 1\<rparr>]
     = Undefined (WrongTypeDelete JSON_STRING (PArray [Value_Int 1, Value_Int 7]))
   \<and> Value_destroy 5 \<lparr>v_type = JSON_STRING, v_data = sptr 0\<rparr>
         [Live \<lparr>w_value = PString ''x'', uses = 1\<rparr>]
     = Undefined (WrongTypeDelete JSON_ARRAY (PString ''x''))
   \<and> Value_destroy 5 \<lparr>v_type = JSON_OBJECT, v_data = optr 0\<rparr>
         [Live \<lparr>w_value = PObject [], uses = 1\<rparr>]
     = Ok [Freed]"
  by code_simp

text \<open>
  C6. After \<open>a = b\<close>, where \<open>b\<close> shares the box of \<open>a\<close> (\<open>a = a\<close> included), the box is live,
  unchanged and counted right. With a second Value on the box this holds: the count
  goes from 2 to 1 and back. When \<open>a\<close> is the only owner, \<open>a = a\<close> releases the box first:
  the count reaches 0, the box is deleted, and the \<open>incref()\<close> that follows goes through
  the pointer to the deleted box.
\<close>

theorem C6_self_assignment_frees_box:
  "Value_Object [] []
     = (\<lparr>v_type = JSON_OBJECT, v_data = optr 0\<rparr>, [Live \<lparr>w_value = PObject [], uses = 1\<rparr>])
   \<and> decref 5 \<lparr>v_type = JSON_OBJECT, v_data = optr 0\<rparr> [Live \<lparr>w_value = PObject [], uses = 1\<rparr>]
     = Ok [Freed]
   \<and> copy_assign 5 \<lparr>v_type = JSON_OBJECT, v_data = optr 0\<rparr>
         \<lparr>v_type = JSON_OBJECT, v_data = optr 0\<rparr> [Live \<lparr>w_value = PObject [], uses = 1\<rparr>]
     = Undefined (DanglingPointer 0)
   \<and> copy_assign 5 \<lparr>v_type = JSON_OBJECT, v_data = optr 0\<rparr>
         \<lparr>v_type = JSON_OBJECT, v_data = optr 0\<rparr> [Live \<lparr>w_value = PObject [], uses = 2\<rparr>]
     = Ok (\<lparr>v_type = JSON_OBJECT, v_data = optr 0\<rparr>, [Live \<lparr>w_value = PObject [], uses = 2\<rparr>])"
  by code_simp

section \<open>Keyed access\<close>

lemma find_key_append:
  "find_key (obj @ [(key, v)]) k =
     (if k = key then (case find_key obj key of Some v' \<Rightarrow> Some v' | None \<Rightarrow> Some v)
      else find_key obj k)"
  by (auto simp: find_key_def map_add_def split: option.splits)

text \<open>
  C7, as the code has it. The mutable keyed accessor \<open>at(const String&)\<close> (and
  \<open>operator[]\<close>, which calls it) throws \<open>ValueTypeError\<close> on every Value that is not an
  Object, a Null Value included. On an Object with a live box it succeeds: it returns
  the entry of the key, which is a new Null entry when the key was absent and the
  existing entry, with the heap unchanged, when it was present; the entry can be read
  back through the read-only accessor, and the entries of other keys are as before.
  The read-only accessor throws \<open>KeyNotExists\<close> for a key that is absent from an
  Object.
\<close>

theorem C7_keyed_access:
  "(v_type this \<noteq> JSON_OBJECT \<longrightarrow>
      at_key this key h = Raise (ValueTypeError ''This is not an object''))
   \<and> (v_type this = JSON_OBJECT \<and> object_of this h = Ok (a, w, obj) \<longrightarrow>
      (\<exists>v h'. at_key this key h = Ok (v, h')
         \<and> v = (case find_key obj key of Some v0 \<Rightarrow> v0 | None \<Rightarrow> Value_Null)
         \<and> (find_key obj key \<noteq> None \<longrightarrow> h' = h)
         \<and> at_key_const this key h' = Ok v
         \<and> (\<forall>k. k \<noteq> key \<longrightarrow> at_key_const this k h' = at_key_const this k h)))
   \<and> (v_type this = JSON_OBJECT \<and> object_of this h = Ok (a, w, obj) \<and> find_key obj key = None \<longrightarrow>
      at_key_const this key h = Raise (KeyNotExists key))"
  apply (intro conjI impI)
    apply (simp add: at_key_def)
   apply (cases "find_key obj key")
    apply (auto simp: at_key_def at_key_const_def object_of_def box_at_def find_key_append
                split: option.splits cell.splits payload.splits if_splits)
  done


text \<open>
  C7 as stated also has the mutable accessor succeed on a Null Value. It throws:
  only \<open>insert(key, value)\<close> promotes a Null Value to an Object.
\<close>

theorem C7_counterexample:
  "at_key Value_Null ''k'' [] = Raise (ValueTypeError ''This is not an object'')"
  by code_simp

theorem C7_keyed_access_witness:
  "v_type Value_Null \<noteq> JSON_OBJECT
   \<and> at_key Value_Null ''z'' [] = Raise (ValueTypeError ''This is not an object'')
   \<and> object_of \<lparr>v_type = JSON_OBJECT, v_data = optr 0\<rparr>
         [Live \<lparr>w_value = PObject [(''a'', Value_Int 1)], uses = 1\<rparr>]
       = Ok (0, \<lparr>w_value = PObject [(''a'', Value_Int 1)], uses = 1\<rparr>, [(''a'', Value_Int 1)])
   \<and> find_key [(''a'', Value_Int 1)] ''z'' = None
   \<and> (\<exists>h'. at_key \<lparr>v_type = JSON_OBJECT, v_data = optr 0\<rparr> ''z''
               [Live \<lparr>w_value = PObject [(''a'', Value_Int 1)], uses = 1\<rparr>] = Ok (Value_Null, h')
            \<and> at_key_const \<lparr>v_type = JSON_OBJECT, v_data = optr 0\<rparr> ''z'' h' = Ok Value_Null
            \<and> at_key_const \<lparr>v_type = JSON_OBJECT, v_data = optr 0\<rparr> ''a'' h' = Ok (Value_Int 1))
   \<and> at_key_const \<lparr>v_type = JSON_OBJECT, v_data = optr 0\<rparr> ''z''
         [Live \<lparr>w_value = PObject [(''a'', Value_Int 1)], uses = 1\<rparr>]
       = Raise (KeyNotExists ''z'')"
proof -
  define me where "me = \<lparr>v_type = JSON_OBJECT, v_data = optr 0\<rparr>"
  define w where "w = \<lparr>w_value = PObject [(''a'', Value_Int 1)], uses = 1\<rparr>"
  define h where "h = [Live w]"
  define obj where "obj = [(''a'', Value_Int 1)]"
  have n: "v_type Value_Null \<noteq> JSON_OBJECT" by (simp add: Value_Null_def)
  have t: "v_type me = JSON_OBJECT" by (simp add: me_def)
  have o: "object_of me h = Ok (0, w, obj)"
    by (simp add: object_of_def me_def h_def w_def obj_def box_at_def)
  have f: "find_key obj ''z'' = None" by (simp add: find_key_def obj_def)
  have a: "at_key_const me ''a'' h = Ok (Value_Int 1)"
    by (simp add: at_key_const_def o t find_key_def obj_def)
  have 1: "at_key Value_Null ''z'' [] = Raise (ValueTypeError ''This is not an object'')"
    using C7_keyed_access [of Value_Null "''z''" "[]"] n by simp
  have 3: "at_key_const me ''z'' h = Raise (KeyNotExists ''z'')"
    using C7_keyed_access [of me "''z''" h 0 w obj] t o f by simp
  have "\<exists>v h'. at_key me ''z'' h = Ok (v, h')
         \<and> v = (case find_key obj ''z'' of Some v0 \<Rightarrow> v0 | None \<Rightarrow> Value_Null)
         \<and> (find_key obj ''z'' \<noteq> None \<longrightarrow> h' = h)
         \<and> at_key_const me ''z'' h' = Ok v
         \<and> (\<forall>k. k \<noteq> ''z'' \<longrightarrow> at_key_const me k h' = at_key_const me k h)"
    using C7_keyed_access [of me "''z''" h 0 w obj] t o by simp
  then obtain v h' where
    v: "at_key me ''z'' h = Ok (v, h')"
       "v = (case find_key obj ''z'' of Some v0 \<Rightarrow> v0 | None \<Rightarrow> Value_Null)"
       "at_key_const me ''z'' h' = Ok v"
       "\<forall>k. k \<noteq> ''z'' \<longrightarrow> at_key_const me k h' = at_key_const me k h"
    by blast
  from v(2) f have vn: "v = Value_Null" by simp
  from v(4) have "at_key_const me ''a'' h' = at_key_const me ''a'' h" by simp
  with a have "at_key_const me ''a'' h' = Ok (Value_Int 1)" by simp
  with v(1,3) vn have 2: "\<exists>h'. at_key me ''z'' h = Ok (Value_Null, h')
            \<and> at_key_const me ''z'' h' = Ok Value_Null
            \<and> at_key_const me ''a'' h' = Ok (Value_Int 1)"
    by blast
  from n 1 o f 2 3 show ?thesis
    unfolding me_def w_def h_def obj_def by blast
qed

section \<open>String escaping in the serializer\<close>

lemma serialize_chars_spec: "serialize_chars s = concat (map spec_escape (c_str s))"
  by (induction s) (simp_all add: spec_escape_def escape_table_def c_str_def)

text \<open>
  C9, as the code has it. Serializing a String writes a double quote, then for every
  byte before the first null byte of the string its escape as the specification has it
  (the two-character escape for the eight listed characters, the byte itself
  otherwise), then a double quote. The string \<open>a"b\c\<close> of five characters gives \<open>"a\"b\\c"\<close>.
\<close>

theorem C9_string_escaping:
  "serialize_String s = [DQUOTE] @ concat (map spec_escape (c_str s)) @ [DQUOTE]
   \<and> serialize_String [CHR ''a'', DQUOTE, CHR ''b'', BSLASH, CHR ''c'']
       = [DQUOTE, CHR ''a'', BSLASH, DQUOTE, CHR ''b'', BSLASH, BSLASH, CHR ''c'', DQUOTE]"
proof (intro conjI)
  show "serialize_String s = [DQUOTE] @ concat (map spec_escape (c_str s)) @ [DQUOTE]"
    by (simp add: serialize_String_def serialize_chars_spec)
  show "serialize_String [CHR ''a'', DQUOTE, CHR ''b'', BSLASH, CHR ''c'']
       = [DQUOTE, CHR ''a'', BSLASH, DQUOTE, CHR ''b'', BSLASH, BSLASH, CHR ''c'', DQUOTE]"
    by code_simp
qed


text \<open>
  C9 as stated covers every byte of any String. The loop of the serializer runs over
  \<open>str.c_str()\<close> until \<open>*ch\<close> is null, so a null byte inside a \<open>std::string\<close> ends the
  output: the three bytes \<open>a\<close>, null, \<open>b\<close> give \<open>"a"\<close>.
\<close>

theorem C9_counterexample:
  "serialize_String [CHR ''a'', NUL, CHR ''b''] = [DQUOTE, CHR ''a'', DQUOTE]
   \<and> serialize_String [CHR ''a'', NUL, CHR ''b'']
       \<noteq> [DQUOTE] @ concat (map spec_escape [CHR ''a'', NUL, CHR ''b'']) @ [DQUOTE]"
  by code_simp

section \<open>Text after the value\<close>

text \<open>
  The lemmas below follow a run of each parsing function on a text and show that the
  run on the text followed by \<open>t\<close> takes the same steps: as long as the first run has
  not used up its text, both see the same lookahead.
\<close>

lemma deref_append: "xs \<noteq> [] \<Longrightarrow> deref (xs @ t) = deref xs"
  by (cases xs) simp_all

lemma sync_skip: "sync (skip StringReader_rdch p)"
  by (simp add: sync_def skip_def StringReader_rdch_def)

lemma sync_nonempty: "sync p \<Longrightarrow> p_ch p \<noteq> NUL \<Longrightarrow> p_r p \<noteq> []"
  by (auto simp: sync_def)

lemma skip_extend_nonempty:
  "p_r p \<noteq> [] \<Longrightarrow> skip StringReader_rdch (extend t p) = extend t (skip StringReader_rdch p)"
  by (cases "p_r p") (simp_all add: skip_def extend_def StringReader_rdch_def)

lemma skip_extend:
  "sync p \<Longrightarrow> p_ch p \<noteq> NUL \<Longrightarrow>
   skip StringReader_rdch (extend t p) = extend t (skip StringReader_rdch p)"
  by (simp add: skip_extend_nonempty sync_nonempty)

lemma ch_extend_nonempty: "sync p \<Longrightarrow> p_r p \<noteq> [] \<Longrightarrow> p_ch (extend t p) = p_ch p"
  by (simp add: extend_def sync_def deref_append)

lemma ch_extend: "sync p \<Longrightarrow> p_ch p \<noteq> NUL \<Longrightarrow> p_ch (extend t p) = p_ch p"
  by (simp add: ch_extend_nonempty sync_nonempty)

lemma ch_extend_end: "p_r p = [] \<Longrightarrow> p_ch (extend t p) = deref t"
  by (simp add: extend_def)

lemma isdigit_NUL: "\<not> isdigit NUL"
  by (simp add: isdigit_def)

lemma isspace_NUL: "\<not> isspace NUL"
  by (simp add: isspace_def)

lemma isdigit_not_NUL: "isdigit c \<Longrightarrow> c \<noteq> NUL"
  by (auto simp: isdigit_def)

lemma isspace_not_NUL: "isspace c \<Longrightarrow> c \<noteq> NUL"
  by (auto simp: isspace_def)

lemma extends_number_NUL: "\<not> extends_number NUL"
  by (simp add: extends_number_def isdigit_def)

text \<open>At a state where the number may end, the extended run sees a lookahead that
  extends a number only if the original run does.\<close>

lemma ok_end_tests:
  assumes "sync p" "ok_end t p"
  shows "isdigit (p_ch (extend t p)) = isdigit (p_ch p)"
    and "(p_ch (extend t p) = CHR ''.'') = (p_ch p = CHR ''.'')"
    and "(p_ch (extend t p) = CHR ''e'') = (p_ch p = CHR ''e'')"
    and "(p_ch (extend t p) = CHR ''E'') = (p_ch p = CHR ''E'')"
proof -
  show "isdigit (p_ch (extend t p)) = isdigit (p_ch p)"
       "(p_ch (extend t p) = CHR ''.'') = (p_ch p = CHR ''.'')"
       "(p_ch (extend t p) = CHR ''e'') = (p_ch p = CHR ''e'')"
       "(p_ch (extend t p) = CHR ''E'') = (p_ch p = CHR ''E'')"
    using assms
    by (cases "p_r p = []";
        auto simp: ok_end_def ch_extend_nonempty ch_extend_end sync_def extends_number_def isdigit_def)+
qed

lemma ok_end_nonempty: "sync p \<Longrightarrow> p_ch p \<noteq> NUL \<Longrightarrow> ok_end t p"
  by (simp add: ok_end_def sync_nonempty)

lemma digit_loop_extend:
  "sync p \<Longrightarrow> p_ch p \<noteq> NUL \<Longrightarrow> digit_loop StringReader_rdch n acc p = Return (x, p') \<Longrightarrow>
   sync p' \<and> (ok_end t p' \<longrightarrow>
     digit_loop StringReader_rdch n acc (extend t p) = Return (x, extend t p'))"
proof (induction n arbitrary: acc p)
  case 0
  then show ?case by simp
next
  case (Suc n)
  let ?p1 = "skip StringReader_rdch p"
  have s1: "sync ?p1" by (rule sync_skip)
  show ?case
  proof (cases "isdigit (p_ch ?p1)")
    case True
    then have nz: "p_ch ?p1 \<noteq> NUL" by (rule isdigit_not_NUL)
    from Suc.prems True have
      "digit_loop StringReader_rdch n (acc * 10 + word_of_int (digit_val (p_ch p))) ?p1 = Return (x, p')"
      by (simp add: Let_def)
    from Suc.IH [OF s1 nz this] True Suc.prems(1,2) s1 nz show ?thesis
      by (simp add: Let_def skip_extend ch_extend)
  next
    case False
    with Suc.prems have eq: "x = acc * 10 + word_of_int (digit_val (p_ch p))" "p' = ?p1"
      by (simp_all add: Let_def)
    with False Suc.prems(1,2) s1 show ?thesis
      by (simp add: Let_def skip_extend ch_extend ok_end_tests)
  qed
qed


lemma exp_skip_loop_extend:
  "sync p \<Longrightarrow> p_ch p \<noteq> NUL \<Longrightarrow> exp_skip_loop StringReader_rdch n p = Return p' \<Longrightarrow>
   sync p' \<and> (ok_end t p' \<longrightarrow>
     exp_skip_loop StringReader_rdch n (extend t p) = Return (extend t p'))"
proof (induction n arbitrary: p)
  case 0
  then show ?case by simp
next
  case (Suc n)
  let ?p1 = "skip StringReader_rdch p"
  have s1: "sync ?p1" by (rule sync_skip)
  show ?case
  proof (cases "isdigit (p_ch ?p1)")
    case True
    then have nz: "p_ch ?p1 \<noteq> NUL" by (rule isdigit_not_NUL)
    from Suc.prems True have "exp_skip_loop StringReader_rdch n ?p1 = Return p'"
      by (simp add: Let_def)
    from Suc.IH [OF s1 nz this] True Suc.prems(1,2) s1 nz show ?thesis
      by (simp add: Let_def skip_extend ch_extend)
  next
    case False
    with Suc.prems have eq: "p' = ?p1"
      by (simp_all add: Let_def)
    with False Suc.prems(1,2) s1 show ?thesis
      by (simp add: Let_def skip_extend ch_extend ok_end_tests)
  qed
qed

lemma exp_loop_extend:
  "sync p \<Longrightarrow> p_ch p \<noteq> NUL \<Longrightarrow> exp_loop StringReader_rdch n acc p = Return (x, p') \<Longrightarrow>
   sync p' \<and> (ok_end t p' \<longrightarrow>
     exp_loop StringReader_rdch n acc (extend t p) = Return (x, extend t p'))"
proof (induction n arbitrary: acc p)
  case 0
  then show ?case by simp
next
  case (Suc n)
  let ?p1 = "skip StringReader_rdch p"
  have s1: "sync ?p1" by (rule sync_skip)
  show ?case
  proof (cases "isdigit (p_ch ?p1)")
    case True
    then have nz: "p_ch ?p1 \<noteq> NUL" by (rule isdigit_not_NUL)
    from Suc.prems True have
      "exp_loop StringReader_rdch n (acc + (acc * 10 + word_of_int (digit_val (p_ch p)))) ?p1
         = Return (x, p')"
      by (simp add: Let_def)
    from Suc.IH [OF s1 nz this] True Suc.prems(1,2) s1 nz show ?thesis
      by (simp add: Let_def skip_extend ch_extend)
  next
    case False
    with Suc.prems have eq: "x = acc + (acc * 10 + word_of_int (digit_val (p_ch p)))" "p' = ?p1"
      by (simp_all add: Let_def)
    with False Suc.prems(1,2) s1 show ?thesis
      by (simp add: Let_def skip_extend ch_extend ok_end_tests)
  qed
qed

lemma dot_loop_extend:
  "sync p \<Longrightarrow> p_ch p \<noteq> NUL \<Longrightarrow> dot_loop fo StringReader_rdch n e acc p = Return (x, p') \<Longrightarrow>
   sync p' \<and> (ok_end t p' \<longrightarrow>
     dot_loop fo StringReader_rdch n e acc (extend t p) = Return (x, extend t p'))"
proof (induction n arbitrary: e acc p)
  case 0
  then show ?case by simp
next
  case (Suc n)
  let ?p1 = "skip StringReader_rdch p"
  let ?acc = "f_add fo acc
                (f_mul fo (f_of_int fo (digit_val (p_ch p))) (f_pow fo (f_of_int fo 10) e))"
  have s1: "sync ?p1" by (rule sync_skip)
  show ?case
  proof (cases "isdigit (p_ch ?p1)")
    case True
    then have nz: "p_ch ?p1 \<noteq> NUL" by (rule isdigit_not_NUL)
    from Suc.prems True have
      "dot_loop fo StringReader_rdch n (f_sub fo e (f_of_int fo 1)) ?acc ?p1 = Return (x, p')"
      by (simp add: Let_def)
    from Suc.IH [OF s1 nz this] True Suc.prems(1,2) s1 nz show ?thesis
      by (simp add: Let_def skip_extend ch_extend)
  next
    case False
    with Suc.prems have eq: "x = ?acc" "p' = ?p1"
      by (simp_all add: Let_def)
    with False Suc.prems(1,2) s1 show ?thesis
      by (simp add: Let_def skip_extend ch_extend ok_end_tests)
  qed
qed

lemma parse_exp_extend:
  assumes "sync p" "p_ch p \<noteq> NUL" "parse_exp fo StringReader_rdch n acc p = Return (x, p')"
  shows "sync p' \<and> (ok_end t p' \<longrightarrow>
     parse_exp fo StringReader_rdch n acc (extend t p) = Return (x, extend t p'))"
proof -
  let ?p1 = "skip StringReader_rdch p"
  let ?p2 = "if p_ch ?p1 = CHR ''-'' then skip StringReader_rdch ?p1
             else if p_ch ?p1 = CHR ''+'' then skip StringReader_rdch ?p1 else ?p1"
  have s1: "sync ?p1" by (rule sync_skip)
  have s2: "sync ?p2" by (simp add: sync_skip)
  from assms(3) have d2: "isdigit (p_ch ?p2)"
    by (simp add: parse_exp_def Let_def split: if_splits)
  then have nz2: "p_ch ?p2 \<noteq> NUL" by (rule isdigit_not_NUL)
  have nz1: "p_ch ?p1 \<noteq> NUL"
    using nz2 by (auto split: if_splits)
  have e1: "skip StringReader_rdch (extend t p) = extend t ?p1"
    using assms(1,2) by (simp add: skip_extend)
  have c1: "p_ch (extend t ?p1) = p_ch ?p1"
    using s1 nz1 by (simp add: ch_extend)
  have e2: "(if p_ch ?p1 = CHR ''-'' then skip StringReader_rdch (extend t ?p1)
             else if p_ch ?p1 = CHR ''+'' then skip StringReader_rdch (extend t ?p1)
             else extend t ?p1) = extend t ?p2"
    using s1 nz1 by (simp add: skip_extend)
  have c2: "p_ch (extend t ?p2) = p_ch ?p2"
    using s2 nz2 by (rule ch_extend)
  have unfold: "parse_exp fo StringReader_rdch n acc (extend t p) =
     (if f_is_zero fo acc then
           (case exp_skip_loop StringReader_rdch n (extend t ?p2) of
              Return p3 \<Rightarrow> Return (acc, p3) | Throw e \<Rightarrow> Throw e | OutOfFuel \<Rightarrow> OutOfFuel)
         else
           (case exp_loop StringReader_rdch n 0 (extend t ?p2) of
              Return (ex, p3) \<Rightarrow>
                Return (f_mul fo acc
                          (f_pow fo (f_of_int fo 10)
                             (f_of_int fo (sint (if p_ch ?p1 \<noteq> CHR ''-'' then ex else - ex)))), p3)
            | Throw e \<Rightarrow> Throw e | OutOfFuel \<Rightarrow> OutOfFuel))"
    unfolding parse_exp_def Let_def e1 c1 e2 c2 using d2 by simp
  show ?thesis
  proof (cases "f_is_zero fo acc")
    case True
    with assms(3) d2 obtain q where
      q: "exp_skip_loop StringReader_rdch n ?p2 = Return q" "x = acc" "p' = q"
      by (auto simp: parse_exp_def Let_def split: result.splits)
    from exp_skip_loop_extend [OF s2 nz2 q(1), of t] q True show ?thesis
      unfolding unfold by simp
  next
    case False
    with assms(3) d2 obtain ex q where
      q: "exp_loop StringReader_rdch n 0 ?p2 = Return (ex, q)" "p' = q"
         "x = f_mul fo acc (f_pow fo (f_of_int fo 10)
                (f_of_int fo (sint (if p_ch ?p1 \<noteq> CHR ''-'' then ex else - ex))))"
      by (auto simp: parse_exp_def Let_def split: result.splits)
    from exp_loop_extend [OF s2 nz2 q(1), of t] q False show ?thesis
      unfolding unfold by simp
  qed
qed


lemma parse_dot_extend:
  assumes "sync p" "p_ch p \<noteq> NUL" "parse_dot fo StringReader_rdch n acc p = Return (x, p')"
  shows "sync p' \<and> (ok_end t p' \<longrightarrow>
     parse_dot fo StringReader_rdch n acc (extend t p) = Return (x, extend t p'))"
proof -
  let ?p1 = "skip StringReader_rdch p"
  have s1: "sync ?p1" by (rule sync_skip)
  from assms(3) have d1: "isdigit (p_ch ?p1)"
    by (simp add: parse_dot_def Let_def split: if_splits)
  then have nz1: "p_ch ?p1 \<noteq> NUL" by (rule isdigit_not_NUL)
  have e1: "skip StringReader_rdch (extend t p) = extend t ?p1"
    using assms(1,2) by (simp add: skip_extend)
  have c1: "p_ch (extend t ?p1) = p_ch ?p1"
    using s1 nz1 by (simp add: ch_extend)
  have unfold: "parse_dot fo StringReader_rdch n acc (extend t p) =
     (case dot_loop fo StringReader_rdch n (f_of_int fo (- 1)) acc (extend t ?p1) of
        Return (y, p2) \<Rightarrow>
          if p_ch p2 = CHR ''e'' \<or> p_ch p2 = CHR ''E'' then parse_exp fo StringReader_rdch n y p2
          else Return (y, p2)
      | Throw e \<Rightarrow> Throw e | OutOfFuel \<Rightarrow> OutOfFuel)"
    unfolding parse_dot_def Let_def e1 c1 using d1 by simp
  from assms(3) d1 obtain y q where
    q: "dot_loop fo StringReader_rdch n (f_of_int fo (- 1)) acc ?p1 = Return (y, q)"
       "(if p_ch q = CHR ''e'' \<or> p_ch q = CHR ''E'' then parse_exp fo StringReader_rdch n y q
         else Return (y, q)) = Return (x, p')"
    by (auto simp: parse_dot_def Let_def split: result.splits)
  note dl = dot_loop_extend [OF s1 nz1 q(1), of t]
  then have sq: "sync q" by simp
  show ?thesis
  proof (cases "p_ch q = CHR ''e'' \<or> p_ch q = CHR ''E''")
    case True
    then have nzq: "p_ch q \<noteq> NUL" by auto
    with sq have okq: "ok_end t q" by (rule ok_end_nonempty)
    from True q(2) have pe: "parse_exp fo StringReader_rdch n y q = Return (x, p')" by simp
    from parse_exp_extend [OF sq nzq pe, of t] dl okq True sq nzq show ?thesis
      unfolding unfold by (simp add: ch_extend)
  next
    case False
    with q(2) have eq: "x = y" "p' = q" by simp_all
    from dl eq False sq show ?thesis
      unfolding unfold by (auto simp: ok_end_tests)
  qed
qed

lemma parse_digit_extend:
  assumes "sync p" "p_ch p \<noteq> NUL" "parse_digit fo StringReader_rdch n p = Return (v, p')"
  shows "sync p' \<and> (ok_end t p' \<longrightarrow>
     parse_digit fo StringReader_rdch n (extend t p) = Return (v, extend t p'))"
proof -
  let ?p1 = "if p_ch p = CHR ''-'' then skip StringReader_rdch p else p"
  have s1: "sync ?p1" using assms(1) by (simp add: sync_skip)
  from assms(3) have d1: "\<not> (p_ch p = CHR ''-'' \<and> \<not> isdigit (p_ch ?p1))"
    by (auto simp: parse_digit_def Let_def split: if_splits)
  have nz1: "p_ch ?p1 \<noteq> NUL"
    using d1 assms(2) isdigit_not_NUL by (auto split: if_splits)
  have c0: "p_ch (extend t p) = p_ch p"
    using assms(1,2) by (rule ch_extend)
  have e1: "(if p_ch p = CHR ''-'' then skip StringReader_rdch (extend t p) else extend t p)
              = extend t ?p1"
    using assms(1,2) by (simp add: skip_extend)
  have c1: "p_ch (extend t ?p1) = p_ch ?p1"
    using s1 nz1 by (rule ch_extend)
  have unfold: "parse_digit fo StringReader_rdch n (extend t p) =
     (case digit_loop StringReader_rdch n 0 (extend t ?p1) of
        Return (iv, p2) \<Rightarrow>
          if p_ch p2 = CHR ''.'' then
            (case parse_dot fo StringReader_rdch n (f_of_int fo (sint iv)) p2 of
               Return (y, p3) \<Rightarrow>
                 Return (JFloat (if p_ch p \<noteq> CHR ''-'' then y else f_neg fo y), p3)
             | Throw e \<Rightarrow> Throw e | OutOfFuel \<Rightarrow> OutOfFuel)
          else if p_ch p2 = CHR ''e'' \<or> p_ch p2 = CHR ''E'' then
            (case parse_exp fo StringReader_rdch n (f_of_int fo (sint iv)) p2 of
               Return (y, p3) \<Rightarrow>
                 Return (JFloat (if p_ch p \<noteq> CHR ''-'' then y else f_neg fo y), p3)
             | Throw e \<Rightarrow> Throw e | OutOfFuel \<Rightarrow> OutOfFuel)
          else Return (JInt (if p_ch p \<noteq> CHR ''-'' then iv else - iv), p2)
      | Throw e \<Rightarrow> Throw e | OutOfFuel \<Rightarrow> OutOfFuel)"
    unfolding parse_digit_def Let_def c0 e1 c1 using d1 by simp
  from assms(3) d1 obtain iv q where
    q: "digit_loop StringReader_rdch n 0 ?p1 = Return (iv, q)"
       "(if p_ch q = CHR ''.'' then
            (case parse_dot fo StringReader_rdch n (f_of_int fo (sint iv)) q of
               Return (y, p3) \<Rightarrow>
                 Return (JFloat (if p_ch p \<noteq> CHR ''-'' then y else f_neg fo y), p3)
             | Throw e \<Rightarrow> Throw e | OutOfFuel \<Rightarrow> OutOfFuel)
          else if p_ch q = CHR ''e'' \<or> p_ch q = CHR ''E'' then
            (case parse_exp fo StringReader_rdch n (f_of_int fo (sint iv)) q of
               Return (y, p3) \<Rightarrow>
                 Return (JFloat (if p_ch p \<noteq> CHR ''-'' then y else f_neg fo y), p3)
             | Throw e \<Rightarrow> Throw e | OutOfFuel \<Rightarrow> OutOfFuel)
          else Return (JInt (if p_ch p \<noteq> CHR ''-'' then iv else - iv), q)) = Return (v, p')"
    by (auto simp: parse_digit_def Let_def split: result.splits)
  note dl = digit_loop_extend [OF s1 nz1 q(1), of t]
  then have sq: "sync q" by simp
  consider (dot) "p_ch q = CHR ''.''"
    | (exp) "p_ch q \<noteq> CHR ''.''" "p_ch q = CHR ''e'' \<or> p_ch q = CHR ''E''"
    | (int) "p_ch q \<noteq> CHR ''.''" "\<not> (p_ch q = CHR ''e'' \<or> p_ch q = CHR ''E'')"
    by blast
  then show ?thesis
  proof cases
    case dot
    then have nzq: "p_ch q \<noteq> NUL" by auto
    with sq have okq: "ok_end t q" by (rule ok_end_nonempty)
    from dot q(2) obtain y where
      y: "parse_dot fo StringReader_rdch n (f_of_int fo (sint iv)) q = Return (y, p')"
         "v = JFloat (if p_ch p \<noteq> CHR ''-'' then y else f_neg fo y)"
      by (auto split: result.splits)
    from parse_dot_extend [OF sq nzq y(1), of t] dl okq dot sq nzq y(2) show ?thesis
      unfolding unfold by (simp add: ch_extend)
  next
    case exp
    then have nzq: "p_ch q \<noteq> NUL" by auto
    with sq have okq: "ok_end t q" by (rule ok_end_nonempty)
    from exp q(2) obtain y where
      y: "parse_exp fo StringReader_rdch n (f_of_int fo (sint iv)) q = Return (y, p')"
         "v = JFloat (if p_ch p \<noteq> CHR ''-'' then y else f_neg fo y)"
      by (auto split: result.splits)
    from parse_exp_extend [OF sq nzq y(1), of t] dl okq exp sq nzq y(2) show ?thesis
      unfolding unfold by (simp add: ch_extend)
  next
    case int
    with q(2) have eq: "v = JInt (if p_ch p \<noteq> CHR ''-'' then iv else - iv)" "p' = q"
      by simp_all
    from dl eq int sq show ?thesis
      unfolding unfold by (auto simp: ok_end_tests)
  qed
qed

lemma expect_extend:
  "sync p \<Longrightarrow> NUL \<notin> set cs \<Longrightarrow> expect StringReader_rdch cs p = Return p' \<Longrightarrow>
   sync p' \<and> expect StringReader_rdch cs (extend t p) = Return (extend t p')"
proof (induction cs arbitrary: p)
  case Nil
  then show ?case by simp
next
  case (Cons c cs)
  from Cons.prems have c: "p_ch p = c" "c \<noteq> NUL" "NUL \<notin> set cs"
    and r: "expect StringReader_rdch cs (skip StringReader_rdch p) = Return p'"
    by (auto split: if_splits)
  from Cons.IH [OF sync_skip c(3) r] Cons.prems(1) c show ?case
    by (simp add: ch_extend skip_extend)
qed

lemma parse_null_extend:
  assumes "sync p" "p_ch p \<noteq> NUL" "parse_null StringReader_rdch p = Return (v, p')"
  shows "sync p' \<and> parse_null StringReader_rdch (extend t p) = Return (v, extend t p')"
proof -
  from assms(3) obtain q where
    q: "expect StringReader_rdch ''ull'' (skip StringReader_rdch p) = Return q" "v = JNull" "p' = q"
    by (auto simp: parse_null_def split: result.splits)
  from expect_extend [OF sync_skip _ q(1), of t] q assms(1,2) show ?thesis
    by (simp add: parse_null_def skip_extend)
qed

lemma parse_true_extend:
  assumes "sync p" "p_ch p \<noteq> NUL" "parse_true StringReader_rdch p = Return (v, p')"
  shows "sync p' \<and> parse_true StringReader_rdch (extend t p) = Return (v, extend t p')"
proof -
  from assms(3) obtain q where
    q: "expect StringReader_rdch ''rue'' (skip StringReader_rdch p) = Return q"
       "v = JBool True" "p' = q"
    by (auto simp: parse_true_def split: result.splits)
  from expect_extend [OF sync_skip _ q(1), of t] q assms(1,2) show ?thesis
    by (simp add: parse_true_def skip_extend)
qed

lemma parse_false_extend:
  assumes "sync p" "p_ch p \<noteq> NUL" "parse_false StringReader_rdch p = Return (v, p')"
  shows "sync p' \<and> parse_false StringReader_rdch (extend t p) = Return (v, extend t p')"
proof -
  from assms(3) obtain q where
    q: "expect StringReader_rdch ''alse'' (skip StringReader_rdch p) = Return q"
       "v = JBool False" "p' = q"
    by (auto simp: parse_false_def split: result.splits)
  from expect_extend [OF sync_skip _ q(1), of t] q assms(1,2) show ?thesis
    by (simp add: parse_false_def skip_extend)
qed


lemma in_range_not_NUL:
  "in_range (CHR ''0'') (CHR ''9'') c \<or> in_range (CHR ''a'') (CHR ''f'') c
     \<or> in_range (CHR ''A'') (CHR ''F'') c \<Longrightarrow> c \<noteq> NUL"
  by (auto simp: in_range_def)

lemma hex_loop_extend:
  "sync p \<Longrightarrow> p_ch p \<noteq> NUL \<Longrightarrow> hex_loop StringReader_rdch k hex p = Return (x, p') \<Longrightarrow>
   sync p' \<and> p_ch p' \<noteq> NUL \<and> hex_loop StringReader_rdch k hex (extend t p) = Return (x, extend t p')"
proof (induction k arbitrary: hex p)
  case 0
  then show ?case by simp
next
  case (Suc k)
  let ?p1 = "skip StringReader_rdch p"
  let ?c = "p_ch ?p1"
  have s1: "sync ?p1" by (rule sync_skip)
  from Suc.prems(3) have rng:
    "in_range (CHR ''0'') (CHR ''9'') ?c \<or> in_range (CHR ''a'') (CHR ''f'') ?c
       \<or> in_range (CHR ''A'') (CHR ''F'') ?c"
    by (auto simp: Let_def split: if_splits)
  then have nz1: "?c \<noteq> NUL" by (rule in_range_not_NUL)
  have e1: "skip StringReader_rdch (extend t p) = extend t ?p1"
    using Suc.prems(1,2) by (simp add: skip_extend)
  have c1: "p_ch (extend t ?p1) = ?c"
    using s1 nz1 by (rule ch_extend)
  from Suc.prems(3) obtain hex' where
    h: "hex_loop StringReader_rdch k hex' ?p1 = Return (x, p')"
       "hex_loop StringReader_rdch (Suc k) hex (extend t p)
          = hex_loop StringReader_rdch k hex' (extend t ?p1)"
    by (auto simp: Let_def e1 c1 split: if_splits)
  from Suc.IH [OF s1 nz1 h(1)] h(2) show ?case by simp
qed

lemma escape_NUL: "p_ch p = NUL \<Longrightarrow> escape rd p = Throw (UnexpectedEscape NUL)"
  by (simp add: escape_def)

lemma escape_extend:
  assumes "sync p" "p_ch p \<noteq> NUL" "escape StringReader_rdch p = Return (bytes, p')"
  shows "sync p' \<and> p_ch p' \<noteq> NUL
         \<and> escape StringReader_rdch (extend t p) = Return (bytes, extend t p')"
proof (cases "p_ch p = CHR ''u''")
  case True
  with assms(3) obtain hex q where
    q: "hex_loop StringReader_rdch 4 0 p = Return (hex, q)" "p' = q"
       "bytes = [to_char (0xE0 OR drop_bit 12 hex), to_char (0x80 OR drop_bit 6 hex),
                 to_char (0x80 OR (hex AND 0x3F))]"
    by (auto simp: escape_def Let_def split: result.splits)
  from hex_loop_extend [OF assms(1,2) q(1), of t] q True assms(1,2) show ?thesis
    by (simp add: escape_def Let_def ch_extend)
next
  case False
  with assms show ?thesis
    by (auto simp: escape_def Let_def ch_extend split: if_splits)
qed

lemma string_loop_extend:
  "sync p \<Longrightarrow> string_loop StringReader_rdch n ss p = Return (x, p') \<Longrightarrow>
   sync p' \<and> string_loop StringReader_rdch n ss (extend t p) = Return (x, extend t p')"
proof (induction n arbitrary: ss p)
  case 0
  then show ?case by simp
next
  case (Suc n)
  from Suc.prems(2) have nz: "p_ch p \<noteq> NUL" by (auto split: if_splits)
  have c0: "p_ch (extend t p) = p_ch p" using Suc.prems(1) nz by (rule ch_extend)
  have e0: "skip StringReader_rdch (extend t p) = extend t (skip StringReader_rdch p)"
    using Suc.prems(1) nz by (rule skip_extend)
  let ?p1 = "skip StringReader_rdch p"
  have s1: "sync ?p1" by (rule sync_skip)
  consider (quote) "p_ch p = DQUOTE"
    | (bslash) "p_ch p \<noteq> DQUOTE" "p_ch p = BSLASH"
    | (other) "p_ch p \<noteq> DQUOTE" "p_ch p \<noteq> BSLASH"
    by blast
  then show ?case
  proof cases
    case quote
    with Suc.prems nz show ?thesis by (auto simp: c0 e0 sync_skip)
  next
    case bslash
    with Suc.prems(2) nz obtain bytes q where
      q: "escape StringReader_rdch ?p1 = Return (bytes, q)"
         "string_loop StringReader_rdch n (ss @ bytes) (skip StringReader_rdch q) = Return (x, p')"
      by (auto split: result.splits)
    have nz1: "p_ch ?p1 \<noteq> NUL"
      using q(1) escape_NUL [of ?p1 StringReader_rdch] by auto
    note es = escape_extend [OF s1 nz1 q(1), of t]
    from Suc.IH [OF sync_skip q(2)] es bslash nz show ?thesis
      by (simp add: c0 e0 skip_extend)
  next
    case other
    with Suc.prems(2) nz have
      r: "string_loop StringReader_rdch n (ss @ [p_ch p]) ?p1 = Return (x, p')"
      by simp
    from Suc.IH [OF s1 r] other nz show ?thesis
      by (simp add: c0 e0)
  qed
qed

lemma parse_string_extend:
  assumes "sync p" "p_ch p \<noteq> NUL" "parse_string StringReader_rdch n p = Return (x, p')"
  shows "sync p' \<and> parse_string StringReader_rdch n (extend t p) = Return (x, extend t p')"
  using string_loop_extend [OF sync_skip, of n "[]" p x p' t] assms
  by (simp add: parse_string_def skip_extend)

lemma parse_string_value_extend:
  assumes "sync p" "p_ch p \<noteq> NUL" "parse_string_value StringReader_rdch n p = Return (v, p')"
  shows "sync p' \<and> parse_string_value StringReader_rdch n (extend t p) = Return (v, extend t p')"
proof -
  from assms(3) obtain str where
    q: "parse_string StringReader_rdch n p = Return (str, p')" "v = JString str"
    by (auto simp: parse_string_value_def split: result.splits)
  from parse_string_extend [OF assms(1,2) q(1), of t] q(2) show ?thesis
    by (simp add: parse_string_value_def)
qed

lemma skip_space_extend:
  "sync p \<Longrightarrow> skip_space StringReader_rdch n p = Return p' \<Longrightarrow>
   sync p' \<and> (p_ch p' \<noteq> NUL \<longrightarrow>
     skip_space StringReader_rdch n (extend t p) = Return (extend t p'))"
proof (induction n arbitrary: p)
  case 0
  then show ?case by simp
next
  case (Suc n)
  show ?case
  proof (cases "isspace (p_ch p)")
    case True
    then have nz: "p_ch p \<noteq> NUL" by (rule isspace_not_NUL)
    from Suc.prems True have r: "skip_space StringReader_rdch n (skip StringReader_rdch p) = Return p'"
      by simp
    from Suc.IH [OF sync_skip r] True nz Suc.prems(1) show ?thesis
      by (simp add: ch_extend skip_extend)
  next
    case False
    with Suc.prems have "p' = p" by simp
    with False Suc.prems(1) show ?thesis
      by (auto simp: ch_extend)
  qed
qed


lemma skip_space_NUL: "p_ch p = NUL \<Longrightarrow> skip_space rd n p = Return p' \<Longrightarrow> p' = p"
  by (cases n) (simp_all add: isspace_NUL)

lemma parse_digit_is_number: "parse_digit fo rd n p = Return (v, p') \<Longrightarrow> is_number v"
  by (auto simp: parse_digit_def Let_def split: if_splits result.splits)

lemma parse_extend_all:
  "(\<forall>p v p'. sync p \<longrightarrow> parse fo StringReader_rdch n p = Return (v, p') \<longrightarrow>
      sync p' \<and> (ok_end t p' \<or> \<not> is_number v \<longrightarrow>
        parse fo StringReader_rdch n (extend t p) = Return (v, extend t p')))
   \<and> (\<forall>arr p v p'. sync p \<longrightarrow> array_loop fo StringReader_rdch n arr p = Return (v, p') \<longrightarrow>
      sync p' \<and> array_loop fo StringReader_rdch n arr (extend t p) = Return (v, extend t p'))
   \<and> (\<forall>obj p v p'. sync p \<longrightarrow> object_loop fo StringReader_rdch n obj p = Return (v, p') \<longrightarrow>
      sync p' \<and> object_loop fo StringReader_rdch n obj (extend t p) = Return (v, extend t p'))"
proof (induction n)
  case 0
  show ?case by simp
next
  case (Suc n)
  then have IH1: "\<And>p v p'. sync p \<Longrightarrow> parse fo StringReader_rdch n p = Return (v, p') \<Longrightarrow>
      sync p' \<and> (ok_end t p' \<or> \<not> is_number v \<longrightarrow>
        parse fo StringReader_rdch n (extend t p) = Return (v, extend t p'))"
    and IH2: "\<And>arr p v p'. sync p \<Longrightarrow> array_loop fo StringReader_rdch n arr p = Return (v, p') \<Longrightarrow>
      sync p' \<and> array_loop fo StringReader_rdch n arr (extend t p) = Return (v, extend t p')"
    and IH3: "\<And>obj p v p'. sync p \<Longrightarrow> object_loop fo StringReader_rdch n obj p = Return (v, p') \<Longrightarrow>
      sync p' \<and> object_loop fo StringReader_rdch n obj (extend t p) = Return (v, extend t p')"
    by blast+
  have P1: "sync p' \<and> (ok_end t p' \<or> \<not> is_number v \<longrightarrow>
        parse fo StringReader_rdch (Suc n) (extend t p) = Return (v, extend t p'))"
    if sp: "sync p" and r: "parse fo StringReader_rdch (Suc n) p = Return (v, p')" for p v p'
  proof -
    let ?c = "p_ch p"
    from r have nz: "?c \<noteq> NUL"
      by (auto simp: Let_def isdigit_def split: if_splits)
    have c0: "p_ch (extend t p) = ?c" using sp nz by (rule ch_extend)
    have e0: "skip StringReader_rdch (extend t p) = extend t (skip StringReader_rdch p)"
      using sp nz by (rule skip_extend)
    consider (ws) "?c = CHR '' '' \<or> ?c = HT \<or> ?c = CR \<or> ?c = VT \<or> ?c = FF \<or> ?c = LF"
      | (num) "\<not> (?c = CHR '' '' \<or> ?c = HT \<or> ?c = CR \<or> ?c = VT \<or> ?c = FF \<or> ?c = LF)"
              "?c = CHR ''-'' \<or> isdigit ?c"
      | (other) "\<not> (?c = CHR '' '' \<or> ?c = HT \<or> ?c = CR \<or> ?c = VT \<or> ?c = FF \<or> ?c = LF)"
              "\<not> (?c = CHR ''-'' \<or> isdigit ?c)"
      by blast
    then show ?thesis
    proof cases
      case ws
      with r have "parse fo StringReader_rdch n (skip StringReader_rdch p) = Return (v, p')"
        by (simp add: Let_def)
      from IH1 [OF sync_skip this] ws show ?thesis
        by (simp add: Let_def c0 e0)
    next
      case num
      with r have pd: "parse_digit fo StringReader_rdch n p = Return (v, p')"
        by (simp add: Let_def)
      from parse_digit_extend [OF sp nz pd, of t] parse_digit_is_number [OF pd] num show ?thesis
        by (simp add: Let_def c0)
    next
      case other
      consider (n) "?c = CHR ''n''" | (t) "?c = CHR ''t''" | (f) "?c = CHR ''f''"
        | (s) "?c = DQUOTE" | (a) "?c = CHR ''[''" | (ob) "?c = CHR ''{''"
        using r other by (auto simp: Let_def split: if_splits)
      then show ?thesis
      proof cases
        case n
        with r other have "parse_null StringReader_rdch p = Return (v, p')"
          by (simp add: Let_def)
        from parse_null_extend [OF sp nz this, of t] n show ?thesis
          by (simp add: Let_def c0 isdigit_def)
      next
        case t
        with r other have "parse_true StringReader_rdch p = Return (v, p')"
          by (simp add: Let_def)
        from parse_true_extend [OF sp nz this] t show ?thesis
          by (simp add: Let_def c0 isdigit_def)
      next
        case f
        with r other have "parse_false StringReader_rdch p = Return (v, p')"
          by (simp add: Let_def)
        from parse_false_extend [OF sp nz this] f show ?thesis
          by (simp add: Let_def c0 isdigit_def)
      next
        case s
        with r other have "parse_string_value StringReader_rdch n p = Return (v, p')"
          by (simp add: Let_def)
        from parse_string_value_extend [OF sp nz this] s show ?thesis
          by (simp add: Let_def c0 isdigit_def)
      next
        case a
        with r other have
          "array_loop fo StringReader_rdch n [] (skip StringReader_rdch p) = Return (v, p')"
          by (simp add: Let_def)
        from IH2 [OF sync_skip this] a show ?thesis
          by (simp add: Let_def c0 e0 isdigit_def)
      next
        case ob
        with r other have
          "object_loop fo StringReader_rdch n [] (skip StringReader_rdch p) = Return (v, p')"
          by (simp add: Let_def)
        from IH3 [OF sync_skip this] ob show ?thesis
          by (simp add: Let_def c0 e0 isdigit_def)
      qed
    qed
  qed
  have P2: "sync p' \<and> array_loop fo StringReader_rdch (Suc n) arr (extend t p) = Return (v, extend t p')"
    if sp: "sync p" and r: "array_loop fo StringReader_rdch (Suc n) arr p = Return (v, p')"
    for arr p v p'
  proof -
    from r have nz: "p_ch p \<noteq> NUL" by (auto split: if_splits)
    have c0: "p_ch (extend t p) = p_ch p" using sp nz by (rule ch_extend)
    from r nz obtain v1 p1 p2 where
      q: "parse fo StringReader_rdch n p = Return (v1, p1)"
         "skip_space StringReader_rdch n p1 = Return p2"
         "(if p_ch p2 = CHR '']'' then Return (JArray (arr @ [v1]), skip StringReader_rdch p2)
           else if p_ch p2 \<noteq> CHR '','' then Throw UnexpectedToken
           else array_loop fo StringReader_rdch n (arr @ [v1]) (skip StringReader_rdch p2))
          = Return (v, p')"
      by (auto split: result.splits)
    from q(3) have nz2: "p_ch p2 \<noteq> NUL" by (auto split: if_splits)
    from IH1 [OF sp q(1)] have s1: "sync p1" by simp
    from skip_space_extend [OF s1 q(2), of t] nz2 have s2: "sync p2"
      and b2: "skip_space StringReader_rdch n (extend t p1) = Return (extend t p2)"
      by simp_all
    have nz1: "p_ch p1 \<noteq> NUL"
      using skip_space_NUL [OF _ q(2)] nz2 by auto
    with s1 have "ok_end t p1" by (rule ok_end_nonempty)
    with IH1 [OF sp q(1)] have b1: "parse fo StringReader_rdch n (extend t p) = Return (v1, extend t p1)"
      by simp
    have c2: "p_ch (extend t p2) = p_ch p2" using s2 nz2 by (rule ch_extend)
    have e2: "skip StringReader_rdch (extend t p2) = extend t (skip StringReader_rdch p2)"
      using s2 nz2 by (rule skip_extend)
    show ?thesis
    proof (cases "p_ch p2 = CHR '']''")
      case True
      with q(3) nz show ?thesis
        by (auto simp: c0 b1 b2 c2 e2 sync_skip)
    next
      case False
      with q(3) have comma: "p_ch p2 = CHR '',''"
        and rr: "array_loop fo StringReader_rdch n (arr @ [v1]) (skip StringReader_rdch p2)
                   = Return (v, p')"
        by (auto split: if_splits)
      from IH2 [OF sync_skip rr] False comma nz show ?thesis
        by (simp add: c0 b1 b2 c2 e2)
    qed
  qed
  have P3: "sync p' \<and> object_loop fo StringReader_rdch (Suc n) obj (extend t p) = Return (v, extend t p')"
    if sp: "sync p" and r: "object_loop fo StringReader_rdch (Suc n) obj p = Return (v, p')"
    for obj p v p'
  proof -
    from r have nz: "p_ch p \<noteq> NUL" by (auto split: if_splits)
    have c0: "p_ch (extend t p) = p_ch p" using sp nz by (rule ch_extend)
    from r nz obtain p1 where
      q1: "skip_space StringReader_rdch n p = Return p1" "p_ch p1 = DQUOTE"
      by (auto split: result.splits if_splits)
    from q1(2) have nz1: "p_ch p1 \<noteq> NUL" by simp
    from skip_space_extend [OF sp q1(1), of t] nz1 have s1: "sync p1"
      and b1: "skip_space StringReader_rdch n (extend t p) = Return (extend t p1)"
      by simp_all
    have c1: "p_ch (extend t p1) = p_ch p1" using s1 nz1 by (rule ch_extend)
    from r nz q1 obtain key p2 where
      q2: "parse_string StringReader_rdch n p1 = Return (key, p2)"
      by (auto split: result.splits if_splits)
    from parse_string_extend [OF s1 nz1 q2, of t] have s2: "sync p2"
      and b2: "parse_string StringReader_rdch n (extend t p1) = Return (key, extend t p2)"
      by simp_all
    from r nz q1 q2 obtain p3 where
      q3: "skip_space StringReader_rdch n p2 = Return p3" "p_ch p3 = CHR '':''"
      by (auto split: result.splits if_splits)
    from q3(2) have nz3: "p_ch p3 \<noteq> NUL" by simp
    from skip_space_extend [OF s2 q3(1), of t] nz3 have s3: "sync p3"
      and b3: "skip_space StringReader_rdch n (extend t p2) = Return (extend t p3)"
      by simp_all
    have c3: "p_ch (extend t p3) = p_ch p3" using s3 nz3 by (rule ch_extend)
    have e3: "skip StringReader_rdch (extend t p3) = extend t (skip StringReader_rdch p3)"
      using s3 nz3 by (rule skip_extend)
    from r nz q1 q2 q3 obtain v1 p4 p5 where
      q4: "parse fo StringReader_rdch n (skip StringReader_rdch p3) = Return (v1, p4)"
      and q5: "skip_space StringReader_rdch n p4 = Return p5"
      and q6: "(if p_ch p5 = CHR ''}'' then
                  Return (JObject (obj_set obj key v1), skip StringReader_rdch p5)
                else if p_ch p5 \<noteq> CHR '','' then Throw UnexpectedToken
                else object_loop fo StringReader_rdch n (obj_set obj key v1)
                       (skip StringReader_rdch p5)) = Return (v, p')"
      by (auto split: result.splits if_splits)
    from q6 have nz5: "p_ch p5 \<noteq> NUL" by (auto split: if_splits)
    from IH1 [OF sync_skip q4] have s4: "sync p4" by simp
    from skip_space_extend [OF s4 q5, of t] nz5 have s5: "sync p5"
      and b5: "skip_space StringReader_rdch n (extend t p4) = Return (extend t p5)"
      by simp_all
    have nz4: "p_ch p4 \<noteq> NUL"
      using skip_space_NUL [OF _ q5] nz5 by auto
    with s4 have "ok_end t p4" by (rule ok_end_nonempty)
    with IH1 [OF sync_skip q4] have
      b4: "parse fo StringReader_rdch n (extend t (skip StringReader_rdch p3))
             = Return (v1, extend t p4)"
      by simp
    have c5: "p_ch (extend t p5) = p_ch p5" using s5 nz5 by (rule ch_extend)
    have e5: "skip StringReader_rdch (extend t p5) = extend t (skip StringReader_rdch p5)"
      using s5 nz5 by (rule skip_extend)
    show ?thesis
    proof (cases "p_ch p5 = CHR ''}''")
      case True
      with q6 nz q1(2) q3(2) show ?thesis
        by (auto simp: c0 b1 c1 b2 b3 c3 e3 b4 b5 c5 e5 sync_skip)
    next
      case False
      with q6 have comma: "p_ch p5 = CHR '',''"
        and rr: "object_loop fo StringReader_rdch n (obj_set obj key v1) (skip StringReader_rdch p5)
                   = Return (v, p')"
        by (auto split: if_splits)
      from IH3 [OF sync_skip rr] False comma nz q1(2) q3(2) show ?thesis
        by (simp add: c0 b1 c1 b2 b3 c3 e3 b4 b5 c5 e5)
    qed
  qed
  from P1 P2 P3 show ?case by blast
qed


lemma parse_NUL: "p_ch p = NUL \<Longrightarrow> parse fo rd n p \<noteq> Return x"
  by (cases n) (simp_all add: Let_def isdigit_def)

lemma sync_Parser_init: "sync (Parser_init StringReader_rdch w)"
  by (simp add: sync_def Parser_init_def StringReader_rdch_def)

lemma Parser_init_extend:
  "w \<noteq> [] \<Longrightarrow> Parser_init StringReader_rdch (w @ t) = extend t (Parser_init StringReader_rdch w)"
  by (cases w) (simp_all add: Parser_init_def StringReader_rdch_def extend_def)

lemma Parser_init_Nil: "p_ch (Parser_init StringReader_rdch []) = NUL"
  by (simp add: Parser_init_def StringReader_rdch_def)

lemma deserialize_extend:
  assumes "deserialize fo n w = Return v"
    and "\<not> is_number v \<or> \<not> extends_number (deref t)"
  shows "deserialize fo n (w @ t) = Return v"
proof -
  let ?p = "Parser_init StringReader_rdch w"
  from assms(1) obtain p' where r: "parse fo StringReader_rdch n ?p = Return (v, p')"
    by (auto simp: deserialize_def split: result.splits)
  have "w \<noteq> []"
    using r parse_NUL [of ?p fo StringReader_rdch n "(v, p')"] Parser_init_Nil by auto
  then have i: "Parser_init StringReader_rdch (w @ t) = extend t ?p"
    by (rule Parser_init_extend)
  from assms(2) have "ok_end t p' \<or> \<not> is_number v"
    by (auto simp: ok_end_def)
  with parse_extend_all [of fo n t] sync_Parser_init [of w] r
  have "parse fo StringReader_rdch n (extend t ?p) = Return (v, extend t p')"
    by blast
  then show ?thesis by (simp add: deserialize_def i)
qed




section \<open>The string path is the stream path on the text without its first character\<close>

text \<open>
  Every parsing function gives the same result over two readers that are bisimilar.
  The StringReader over \<open>c # s\<close> and the StreamReader over \<open>s\<close> are, for a text without
  null bytes: \<open>deserialize(const char*)\<close> on a text is \<open>deserialize(std::istream&)\<close> on
  the text without its first character.
\<close>

lemma sim_ch: "sim R pA pB \<Longrightarrow> p_ch pA = p_ch pB"
  by (simp add: sim_def)

lemma sim_skip: "bisim rdA rdB R \<Longrightarrow> sim R pA pB \<Longrightarrow> sim R (skip rdA pA) (skip rdB pB)"
  by (auto simp: bisim_def sim_def skip_def split: prod.splits) (metis fst_conv snd_conv)+

lemma sim_init: "bisim rdA rdB R \<Longrightarrow> R a b \<Longrightarrow> sim R (Parser_init rdA a) (Parser_init rdB b)"
  by (auto simp: bisim_def sim_def Parser_init_def split: prod.splits) (metis fst_conv snd_conv)+

lemma result_case_rel:
  "rel_result X rA rB \<Longrightarrow> (\<And>a b. X a b \<Longrightarrow> rel_result Y (kA a) (kB b)) \<Longrightarrow>
   rel_result Y (case rA of Return a \<Rightarrow> kA a | Throw e \<Rightarrow> Throw e | OutOfFuel \<Rightarrow> OutOfFuel)
                (case rB of Return b \<Rightarrow> kB b | Throw e \<Rightarrow> Throw e | OutOfFuel \<Rightarrow> OutOfFuel)"
  by (cases rA; cases rB; simp)

lemma skip_space_sim:
  assumes "bisim rdA rdB R"
  shows "sim R pA pB \<Longrightarrow> rel_result (sim R) (skip_space rdA n pA) (skip_space rdB n pB)"
proof (induction n arbitrary: pA pB)
  case 0
  show ?case by simp
next
  case (Suc n)
  from Suc.IH [OF sim_skip [OF assms Suc.prems]] Suc.prems sim_ch [OF Suc.prems] show ?case
    by simp
qed

lemma expect_sim:
  assumes "bisim rdA rdB R"
  shows "sim R pA pB \<Longrightarrow> rel_result (sim R) (expect rdA cs pA) (expect rdB cs pB)"
proof (induction cs arbitrary: pA pB)
  case Nil
  then show ?case by simp
next
  case (Cons c cs)
  from Cons.IH [OF sim_skip [OF assms Cons.prems]] sim_ch [OF Cons.prems] show ?case
    by simp
qed

lemma digit_loop_sim:
  assumes "bisim rdA rdB R"
  shows "sim R pA pB \<Longrightarrow>
    rel_result (rel_prod (=) (sim R)) (digit_loop rdA n acc pA) (digit_loop rdB n acc pB)"
proof (induction n arbitrary: acc pA pB)
  case 0
  show ?case by simp
next
  case (Suc n)
  note s = sim_skip [OF assms Suc.prems]
  from Suc.IH [OF s] s sim_ch [OF s] sim_ch [OF Suc.prems] show ?case
    by (simp add: Let_def)
qed

lemma exp_skip_loop_sim:
  assumes "bisim rdA rdB R"
  shows "sim R pA pB \<Longrightarrow> rel_result (sim R) (exp_skip_loop rdA n pA) (exp_skip_loop rdB n pB)"
proof (induction n arbitrary: pA pB)
  case 0
  show ?case by simp
next
  case (Suc n)
  note s = sim_skip [OF assms Suc.prems]
  from Suc.IH [OF s] s sim_ch [OF s] sim_ch [OF Suc.prems] show ?case
    by (simp add: Let_def)
qed

lemma exp_loop_sim:
  assumes "bisim rdA rdB R"
  shows "sim R pA pB \<Longrightarrow>
    rel_result (rel_prod (=) (sim R)) (exp_loop rdA n acc pA) (exp_loop rdB n acc pB)"
proof (induction n arbitrary: acc pA pB)
  case 0
  show ?case by simp
next
  case (Suc n)
  note s = sim_skip [OF assms Suc.prems]
  from Suc.IH [OF s] s sim_ch [OF s] sim_ch [OF Suc.prems] show ?case
    by (simp add: Let_def)
qed

lemma dot_loop_sim:
  assumes "bisim rdA rdB R"
  shows "sim R pA pB \<Longrightarrow>
    rel_result (rel_prod (=) (sim R)) (dot_loop fo rdA n e acc pA) (dot_loop fo rdB n e acc pB)"
proof (induction n arbitrary: e acc pA pB)
  case 0
  show ?case by simp
next
  case (Suc n)
  note s = sim_skip [OF assms Suc.prems]
  from Suc.IH [OF s] s sim_ch [OF s] sim_ch [OF Suc.prems] show ?case
    by (simp add: Let_def)
qed

lemma parse_exp_sim:
  assumes "bisim rdA rdB R" "sim R pA pB"
  shows "rel_result (rel_prod (=) (sim R)) (parse_exp fo rdA n acc pA) (parse_exp fo rdB n acc pB)"
proof -
  note s1 = sim_skip [OF assms]
  note s2 = sim_skip [OF assms(1) s1]
  let ?qA = "if p_ch (skip rdA pA) = CHR ''-'' then skip rdA (skip rdA pA)
             else if p_ch (skip rdA pA) = CHR ''+'' then skip rdA (skip rdA pA) else skip rdA pA"
  let ?qB = "if p_ch (skip rdB pB) = CHR ''-'' then skip rdB (skip rdB pB)
             else if p_ch (skip rdB pB) = CHR ''+'' then skip rdB (skip rdB pB) else skip rdB pB"
  have q: "sim R ?qA ?qB" using s1 s2 sim_ch [OF s1] by simp
  have a: "rel_result (rel_prod (=) (sim R))
        (case exp_skip_loop rdA n ?qA of
              Return p3 \<Rightarrow> Return (acc, p3) | Throw e \<Rightarrow> Throw e | OutOfFuel \<Rightarrow> OutOfFuel)
        (case exp_skip_loop rdB n ?qB of
              Return p3 \<Rightarrow> Return (acc, p3) | Throw e \<Rightarrow> Throw e | OutOfFuel \<Rightarrow> OutOfFuel)"
    by (rule result_case_rel [OF exp_skip_loop_sim [OF assms(1) q]]) simp
  have b: "rel_result (rel_prod (=) (sim R))
        (case exp_loop rdA n 0 ?qA of
              Return (ex, p3) \<Rightarrow>
                Return (f_mul fo acc
                          (f_pow fo (f_of_int fo 10)
                             (f_of_int fo (sint (if p_ch (skip rdA pA) \<noteq> CHR ''-'' then ex else - ex)))), p3)
            | Throw e \<Rightarrow> Throw e | OutOfFuel \<Rightarrow> OutOfFuel)
        (case exp_loop rdB n 0 ?qB of
              Return (ex, p3) \<Rightarrow>
                Return (f_mul fo acc
                          (f_pow fo (f_of_int fo 10)
                             (f_of_int fo (sint (if p_ch (skip rdB pB) \<noteq> CHR ''-'' then ex else - ex)))), p3)
            | Throw e \<Rightarrow> Throw e | OutOfFuel \<Rightarrow> OutOfFuel)"
    by (rule result_case_rel [OF exp_loop_sim [OF assms(1) q]]) (auto simp: sim_ch [OF s1])
  from a b sim_ch [OF q] show ?thesis
    unfolding parse_exp_def Let_def by simp
qed


lemma parse_dot_sim:
  assumes "bisim rdA rdB R" "sim R pA pB"
  shows "rel_result (rel_prod (=) (sim R)) (parse_dot fo rdA n acc pA) (parse_dot fo rdB n acc pB)"
proof -
  note s1 = sim_skip [OF assms]
  have "rel_result (rel_prod (=) (sim R))
     (case dot_loop fo rdA n (f_of_int fo (- 1)) acc (skip rdA pA) of
        Return (y, p2) \<Rightarrow>
          if p_ch p2 = CHR ''e'' \<or> p_ch p2 = CHR ''E'' then parse_exp fo rdA n y p2
          else Return (y, p2)
      | Throw e \<Rightarrow> Throw e | OutOfFuel \<Rightarrow> OutOfFuel)
     (case dot_loop fo rdB n (f_of_int fo (- 1)) acc (skip rdB pB) of
        Return (y, p2) \<Rightarrow>
          if p_ch p2 = CHR ''e'' \<or> p_ch p2 = CHR ''E'' then parse_exp fo rdB n y p2
          else Return (y, p2)
      | Throw e \<Rightarrow> Throw e | OutOfFuel \<Rightarrow> OutOfFuel)"
    by (rule result_case_rel [OF dot_loop_sim [OF assms(1) s1]])
       (auto simp: sim_ch parse_exp_sim [OF assms(1)])
  with sim_ch [OF s1] show ?thesis
    unfolding parse_dot_def Let_def by simp
qed

lemma parse_digit_sim:
  assumes "bisim rdA rdB R" "sim R pA pB"
  shows "rel_result (rel_prod (=) (sim R)) (parse_digit fo rdA n pA) (parse_digit fo rdB n pB)"
proof -
  note c0 = sim_ch [OF assms(2)]
  note s1 = sim_skip [OF assms]
  let ?qA = "if p_ch pA = CHR ''-'' then skip rdA pA else pA"
  let ?qB = "if p_ch pB = CHR ''-'' then skip rdB pB else pB"
  have q: "sim R ?qA ?qB" using s1 assms(2) c0 by simp
  have inner: "rel_result (rel_prod (=) (sim R))
      (case rA of
         Return (y, p3) \<Rightarrow> Return (JFloat (if p_ch pA \<noteq> CHR ''-'' then y else f_neg fo y), p3)
       | Throw e \<Rightarrow> Throw e | OutOfFuel \<Rightarrow> OutOfFuel)
      (case rB of
         Return (y, p3) \<Rightarrow> Return (JFloat (if p_ch pB \<noteq> CHR ''-'' then y else f_neg fo y), p3)
       | Throw e \<Rightarrow> Throw e | OutOfFuel \<Rightarrow> OutOfFuel)"
    if "rel_result (rel_prod (=) (sim R)) rA rB" for rA rB
    by (rule result_case_rel [OF that]) (auto simp: c0)
  have "rel_result (rel_prod (=) (sim R))
     (case digit_loop rdA n 0 ?qA of
        Return (iv, p2) \<Rightarrow>
          if p_ch p2 = CHR ''.'' then
            (case parse_dot fo rdA n (f_of_int fo (sint iv)) p2 of
               Return (y, p3) \<Rightarrow>
                 Return (JFloat (if p_ch pA \<noteq> CHR ''-'' then y else f_neg fo y), p3)
             | Throw e \<Rightarrow> Throw e | OutOfFuel \<Rightarrow> OutOfFuel)
          else if p_ch p2 = CHR ''e'' \<or> p_ch p2 = CHR ''E'' then
            (case parse_exp fo rdA n (f_of_int fo (sint iv)) p2 of
               Return (y, p3) \<Rightarrow>
                 Return (JFloat (if p_ch pA \<noteq> CHR ''-'' then y else f_neg fo y), p3)
             | Throw e \<Rightarrow> Throw e | OutOfFuel \<Rightarrow> OutOfFuel)
          else Return (JInt (if p_ch pA \<noteq> CHR ''-'' then iv else - iv), p2)
      | Throw e \<Rightarrow> Throw e | OutOfFuel \<Rightarrow> OutOfFuel)
     (case digit_loop rdB n 0 ?qB of
        Return (iv, p2) \<Rightarrow>
          if p_ch p2 = CHR ''.'' then
            (case parse_dot fo rdB n (f_of_int fo (sint iv)) p2 of
               Return (y, p3) \<Rightarrow>
                 Return (JFloat (if p_ch pB \<noteq> CHR ''-'' then y else f_neg fo y), p3)
             | Throw e \<Rightarrow> Throw e | OutOfFuel \<Rightarrow> OutOfFuel)
          else if p_ch p2 = CHR ''e'' \<or> p_ch p2 = CHR ''E'' then
            (case parse_exp fo rdB n (f_of_int fo (sint iv)) p2 of
               Return (y, p3) \<Rightarrow>
                 Return (JFloat (if p_ch pB \<noteq> CHR ''-'' then y else f_neg fo y), p3)
             | Throw e \<Rightarrow> Throw e | OutOfFuel \<Rightarrow> OutOfFuel)
          else Return (JInt (if p_ch pB \<noteq> CHR ''-'' then iv else - iv), p2)
      | Throw e \<Rightarrow> Throw e | OutOfFuel \<Rightarrow> OutOfFuel)"
    by (rule result_case_rel [OF digit_loop_sim [OF assms(1) q]])
       (auto simp: sim_ch c0 intro!: inner parse_dot_sim [OF assms(1)] parse_exp_sim [OF assms(1)])
  with sim_ch [OF q] c0 show ?thesis
    unfolding parse_digit_def Let_def by simp
qed

lemma parse_null_sim:
  assumes "bisim rdA rdB R" "sim R pA pB"
  shows "rel_result (rel_prod (=) (sim R))
           (parse_null rdA pA :: ('f json \<times> 'a Parser) result) (parse_null rdB pB)"
  unfolding parse_null_def
  by (rule result_case_rel [OF expect_sim [OF assms(1) sim_skip [OF assms]]]) simp

lemma parse_true_sim:
  assumes "bisim rdA rdB R" "sim R pA pB"
  shows "rel_result (rel_prod (=) (sim R))
           (parse_true rdA pA :: ('f json \<times> 'a Parser) result) (parse_true rdB pB)"
  unfolding parse_true_def
  by (rule result_case_rel [OF expect_sim [OF assms(1) sim_skip [OF assms]]]) simp

lemma parse_false_sim:
  assumes "bisim rdA rdB R" "sim R pA pB"
  shows "rel_result (rel_prod (=) (sim R))
           (parse_false rdA pA :: ('f json \<times> 'a Parser) result) (parse_false rdB pB)"
  unfolding parse_false_def
  by (rule result_case_rel [OF expect_sim [OF assms(1) sim_skip [OF assms]]]) simp

lemma hex_loop_sim:
  assumes "bisim rdA rdB R"
  shows "sim R pA pB \<Longrightarrow>
    rel_result (rel_prod (=) (sim R)) (hex_loop rdA k hex pA) (hex_loop rdB k hex pB)"
proof (induction k arbitrary: hex pA pB)
  case 0
  then show ?case by simp
next
  case (Suc k)
  note s = sim_skip [OF assms Suc.prems]
  from Suc.IH [OF s] sim_ch [OF s] show ?case
    by (simp add: Let_def)
qed

lemma escape_sim:
  assumes "bisim rdA rdB R" "sim R pA pB"
  shows "rel_result (rel_prod (=) (sim R)) (escape rdA pA) (escape rdB pB)"
proof -
  have "rel_result (rel_prod (=) (sim R))
     (case hex_loop rdA 4 0 pA of
        Return (hex, p') \<Rightarrow>
          Return ([to_char (0xE0 OR drop_bit 12 hex), to_char (0x80 OR drop_bit 6 hex),
                   to_char (0x80 OR (hex AND 0x3F))], p')
      | Throw e \<Rightarrow> Throw e | OutOfFuel \<Rightarrow> OutOfFuel)
     (case hex_loop rdB 4 0 pB of
        Return (hex, p') \<Rightarrow>
          Return ([to_char (0xE0 OR drop_bit 12 hex), to_char (0x80 OR drop_bit 6 hex),
                   to_char (0x80 OR (hex AND 0x3F))], p')
      | Throw e \<Rightarrow> Throw e | OutOfFuel \<Rightarrow> OutOfFuel)"
    by (rule result_case_rel [OF hex_loop_sim [OF assms]]) auto
  with assms(2) sim_ch [OF assms(2)] show ?thesis
    unfolding escape_def Let_def by simp
qed

lemma string_loop_sim:
  assumes "bisim rdA rdB R"
  shows "sim R pA pB \<Longrightarrow>
    rel_result (rel_prod (=) (sim R)) (string_loop rdA n ss pA) (string_loop rdB n ss pB)"
proof (induction n arbitrary: ss pA pB)
  case 0
  show ?case by simp
next
  case (Suc n)
  note c0 = sim_ch [OF Suc.prems]
  note s = sim_skip [OF assms Suc.prems]
  have e: "rel_result (rel_prod (=) (sim R))
     (case escape rdA (skip rdA pA) of
        Return (bytes, p') \<Rightarrow> string_loop rdA n (ss @ bytes) (skip rdA p')
      | Throw e \<Rightarrow> Throw e | OutOfFuel \<Rightarrow> OutOfFuel)
     (case escape rdB (skip rdB pB) of
        Return (bytes, p') \<Rightarrow> string_loop rdB n (ss @ bytes) (skip rdB p')
      | Throw e \<Rightarrow> Throw e | OutOfFuel \<Rightarrow> OutOfFuel)"
    by (rule result_case_rel [OF escape_sim [OF assms s]])
       (auto intro!: Suc.IH sim_skip [OF assms])
  from e Suc.IH [OF s] s c0 show ?case by simp
qed

lemma parse_string_sim:
  assumes "bisim rdA rdB R" "sim R pA pB"
  shows "rel_result (rel_prod (=) (sim R)) (parse_string rdA n pA) (parse_string rdB n pB)"
  unfolding parse_string_def by (rule string_loop_sim [OF assms(1) sim_skip [OF assms]])

lemma parse_string_value_sim:
  assumes "bisim rdA rdB R" "sim R pA pB"
  shows "rel_result (rel_prod (=) (sim R))
           (parse_string_value rdA n pA :: ('f json \<times> 'a Parser) result)
           (parse_string_value rdB n pB)"
  unfolding parse_string_value_def
  by (rule result_case_rel [OF parse_string_sim [OF assms]]) auto


lemma parse_sim_all:
  fixes fo :: "'f float_ops" and rdA :: "'a \<Rightarrow> char \<times> 'a" and rdB :: "'b \<Rightarrow> char \<times> 'b"
  assumes "bisim rdA rdB R"
  shows "(\<forall>pA pB. sim R pA pB \<longrightarrow>
            rel_result (rel_prod (=) (sim R)) (parse fo rdA n pA) (parse fo rdB n pB))
       \<and> (\<forall>arr pA pB. sim R pA pB \<longrightarrow>
            rel_result (rel_prod (=) (sim R)) (array_loop fo rdA n arr pA) (array_loop fo rdB n arr pB))
       \<and> (\<forall>obj pA pB. sim R pA pB \<longrightarrow>
            rel_result (rel_prod (=) (sim R)) (object_loop fo rdA n obj pA) (object_loop fo rdB n obj pB))"
proof (induction n)
  case 0
  show ?case by simp
next
  case (Suc n)
  then have IH1: "\<And>pA pB. sim R pA pB \<Longrightarrow>
            rel_result (rel_prod (=) (sim R)) (parse fo rdA n pA) (parse fo rdB n pB)"
    and IH2: "\<And>arr pA pB. sim R pA pB \<Longrightarrow>
            rel_result (rel_prod (=) (sim R)) (array_loop fo rdA n arr pA) (array_loop fo rdB n arr pB)"
    and IH3: "\<And>obj pA pB. sim R pA pB \<Longrightarrow>
            rel_result (rel_prod (=) (sim R)) (object_loop fo rdA n obj pA) (object_loop fo rdB n obj pB)"
    by blast+
  have P1: "rel_result (rel_prod (=) (sim R)) (parse fo rdA (Suc n) pA) (parse fo rdB (Suc n) pB)"
    if s: "sim R pA pB" for pA pB
  proof -
    note c0 = sim_ch [OF s]
    note s1 = sim_skip [OF assms s]
    from c0 IH1 [OF s1] IH2 [OF s1, of "[]"] IH3 [OF s1, of "[]"]
      parse_digit_sim [OF assms s, of fo n]
      parse_null_sim [OF assms s, where ?'f = 'f]
      parse_true_sim [OF assms s, where ?'f = 'f]
      parse_false_sim [OF assms s, where ?'f = 'f]
      parse_string_value_sim [OF assms s, of n, where ?'f = 'f]
    show ?thesis by (simp add: Let_def)
  qed
  have P2: "rel_result (rel_prod (=) (sim R))
              (array_loop fo rdA (Suc n) arr pA) (array_loop fo rdB (Suc n) arr pB)"
    if s: "sim R pA pB" for arr pA pB
  proof -
    note c0 = sim_ch [OF s]
    have inner: "rel_result (rel_prod (=) (sim R))
        (case skip_space rdA n pa of
           Return p2 \<Rightarrow>
             if p_ch p2 = CHR '']'' then Return (JArray (arr @ [v]), skip rdA p2)
             else if p_ch p2 \<noteq> CHR '','' then Throw UnexpectedToken
             else array_loop fo rdA n (arr @ [v]) (skip rdA p2)
         | Throw e \<Rightarrow> Throw e | OutOfFuel \<Rightarrow> OutOfFuel)
        (case skip_space rdB n pb of
           Return p2 \<Rightarrow>
             if p_ch p2 = CHR '']'' then Return (JArray (arr @ [v]), skip rdB p2)
             else if p_ch p2 \<noteq> CHR '','' then Throw UnexpectedToken
             else array_loop fo rdB n (arr @ [v]) (skip rdB p2)
         | Throw e \<Rightarrow> Throw e | OutOfFuel \<Rightarrow> OutOfFuel)"
      if "sim R pa pb" for v pa pb
      by (rule result_case_rel [OF skip_space_sim [OF assms that]])
         (auto simp: sim_ch intro!: IH2 sim_skip [OF assms])
    have "rel_result (rel_prod (=) (sim R))
        (case parse fo rdA n pA of
           Return (v, p1) \<Rightarrow>
             (case skip_space rdA n p1 of
                Return p2 \<Rightarrow>
                  if p_ch p2 = CHR '']'' then Return (JArray (arr @ [v]), skip rdA p2)
                  else if p_ch p2 \<noteq> CHR '','' then Throw UnexpectedToken
                  else array_loop fo rdA n (arr @ [v]) (skip rdA p2)
              | Throw e \<Rightarrow> Throw e | OutOfFuel \<Rightarrow> OutOfFuel)
         | Throw e \<Rightarrow> Throw e | OutOfFuel \<Rightarrow> OutOfFuel)
        (case parse fo rdB n pB of
           Return (v, p1) \<Rightarrow>
             (case skip_space rdB n p1 of
                Return p2 \<Rightarrow>
                  if p_ch p2 = CHR '']'' then Return (JArray (arr @ [v]), skip rdB p2)
                  else if p_ch p2 \<noteq> CHR '','' then Throw UnexpectedToken
                  else array_loop fo rdB n (arr @ [v]) (skip rdB p2)
              | Throw e \<Rightarrow> Throw e | OutOfFuel \<Rightarrow> OutOfFuel)
         | Throw e \<Rightarrow> Throw e | OutOfFuel \<Rightarrow> OutOfFuel)"
      by (rule result_case_rel [OF IH1 [OF s]]) (auto intro!: inner)
    with c0 show ?thesis by simp
  qed
  have P3: "rel_result (rel_prod (=) (sim R))
              (object_loop fo rdA (Suc n) obj pA) (object_loop fo rdB (Suc n) obj pB)"
    if s: "sim R pA pB" for obj pA pB
  proof -
    note c0 = sim_ch [OF s]
    have i5: "rel_result (rel_prod (=) (sim R))
        (case skip_space rdA n pa of
           Return p5 \<Rightarrow>
             if p_ch p5 = CHR ''}'' then Return (JObject (obj_set obj key v), skip rdA p5)
             else if p_ch p5 \<noteq> CHR '','' then Throw UnexpectedToken
             else object_loop fo rdA n (obj_set obj key v) (skip rdA p5)
         | Throw e \<Rightarrow> Throw e | OutOfFuel \<Rightarrow> OutOfFuel)
        (case skip_space rdB n pb of
           Return p5 \<Rightarrow>
             if p_ch p5 = CHR ''}'' then Return (JObject (obj_set obj key v), skip rdB p5)
             else if p_ch p5 \<noteq> CHR '','' then Throw UnexpectedToken
             else object_loop fo rdB n (obj_set obj key v) (skip rdB p5)
         | Throw e \<Rightarrow> Throw e | OutOfFuel \<Rightarrow> OutOfFuel)"
      if "sim R pa pb" for key v pa pb
      by (rule result_case_rel [OF skip_space_sim [OF assms that]])
         (auto simp: sim_ch intro!: IH3 sim_skip [OF assms])
    have i4: "rel_result (rel_prod (=) (sim R))
        (case parse fo rdA n pa of
           Return (v, p4) \<Rightarrow>
             (case skip_space rdA n p4 of
                Return p5 \<Rightarrow>
                  if p_ch p5 = CHR ''}'' then Return (JObject (obj_set obj key v), skip rdA p5)
                  else if p_ch p5 \<noteq> CHR '','' then Throw UnexpectedToken
                  else object_loop fo rdA n (obj_set obj key v) (skip rdA p5)
              | Throw e \<Rightarrow> Throw e | OutOfFuel \<Rightarrow> OutOfFuel)
         | Throw e \<Rightarrow> Throw e | OutOfFuel \<Rightarrow> OutOfFuel)
        (case parse fo rdB n pb of
           Return (v, p4) \<Rightarrow>
             (case skip_space rdB n p4 of
                Return p5 \<Rightarrow>
                  if p_ch p5 = CHR ''}'' then Return (JObject (obj_set obj key v), skip rdB p5)
                  else if p_ch p5 \<noteq> CHR '','' then Throw UnexpectedToken
                  else object_loop fo rdB n (obj_set obj key v) (skip rdB p5)
              | Throw e \<Rightarrow> Throw e | OutOfFuel \<Rightarrow> OutOfFuel)
         | Throw e \<Rightarrow> Throw e | OutOfFuel \<Rightarrow> OutOfFuel)"
      if "sim R pa pb" for key pa pb
      by (rule result_case_rel [OF IH1 [OF that]]) (auto intro!: i5)
    have i3: "rel_result (rel_prod (=) (sim R))
        (case skip_space rdA n pa of
           Return p3 \<Rightarrow>
             if p_ch p3 \<noteq> CHR '':'' then Throw UnexpectedToken
             else
               (case parse fo rdA n (skip rdA p3) of
                  Return (v, p4) \<Rightarrow>
                    (case skip_space rdA n p4 of
                       Return p5 \<Rightarrow>
                         if p_ch p5 = CHR ''}'' then
                           Return (JObject (obj_set obj key v), skip rdA p5)
                         else if p_ch p5 \<noteq> CHR '','' then Throw UnexpectedToken
                         else object_loop fo rdA n (obj_set obj key v) (skip rdA p5)
                     | Throw e \<Rightarrow> Throw e | OutOfFuel \<Rightarrow> OutOfFuel)
                | Throw e \<Rightarrow> Throw e | OutOfFuel \<Rightarrow> OutOfFuel)
         | Throw e \<Rightarrow> Throw e | OutOfFuel \<Rightarrow> OutOfFuel)
        (case skip_space rdB n pb of
           Return p3 \<Rightarrow>
             if p_ch p3 \<noteq> CHR '':'' then Throw UnexpectedToken
             else
               (case parse fo rdB n (skip rdB p3) of
                  Return (v, p4) \<Rightarrow>
                    (case skip_space rdB n p4 of
                       Return p5 \<Rightarrow>
                         if p_ch p5 = CHR ''}'' then
                           Return (JObject (obj_set obj key v), skip rdB p5)
                         else if p_ch p5 \<noteq> CHR '','' then Throw UnexpectedToken
                         else object_loop fo rdB n (obj_set obj key v) (skip rdB p5)
                     | Throw e \<Rightarrow> Throw e | OutOfFuel \<Rightarrow> OutOfFuel)
                | Throw e \<Rightarrow> Throw e | OutOfFuel \<Rightarrow> OutOfFuel)
         | Throw e \<Rightarrow> Throw e | OutOfFuel \<Rightarrow> OutOfFuel)"
      if "sim R pa pb" for key pa pb
      by (rule result_case_rel [OF skip_space_sim [OF assms that]])
         (auto simp: sim_ch intro!: i4 sim_skip [OF assms])
    have i2: "rel_result (rel_prod (=) (sim R))
        (case parse_string rdA n pa of
           Return (key, p2) \<Rightarrow>
             (case skip_space rdA n p2 of
                Return p3 \<Rightarrow>
                  if p_ch p3 \<noteq> CHR '':'' then Throw UnexpectedToken
                  else
                    (case parse fo rdA n (skip rdA p3) of
                       Return (v, p4) \<Rightarrow>
                         (case skip_space rdA n p4 of
                            Return p5 \<Rightarrow>
                              if p_ch p5 = CHR ''}'' then
                                Return (JObject (obj_set obj key v), skip rdA p5)
                              else if p_ch p5 \<noteq> CHR '','' then Throw UnexpectedToken
                              else object_loop fo rdA n (obj_set obj key v) (skip rdA p5)
                          | Throw e \<Rightarrow> Throw e | OutOfFuel \<Rightarrow> OutOfFuel)
                     | Throw e \<Rightarrow> Throw e | OutOfFuel \<Rightarrow> OutOfFuel)
              | Throw e \<Rightarrow> Throw e | OutOfFuel \<Rightarrow> OutOfFuel)
         | Throw e \<Rightarrow> Throw e | OutOfFuel \<Rightarrow> OutOfFuel)
        (case parse_string rdB n pb of
           Return (key, p2) \<Rightarrow>
             (case skip_space rdB n p2 of
                Return p3 \<Rightarrow>
                  if p_ch p3 \<noteq> CHR '':'' then Throw UnexpectedToken
                  else
                    (case parse fo rdB n (skip rdB p3) of
                       Return (v, p4) \<Rightarrow>
                         (case skip_space rdB n p4 of
                            Return p5 \<Rightarrow>
                              if p_ch p5 = CHR ''}'' then
                                Return (JObject (obj_set obj key v), skip rdB p5)
                              else if p_ch p5 \<noteq> CHR '','' then Throw UnexpectedToken
                              else object_loop fo rdB n (obj_set obj key v) (skip rdB p5)
                          | Throw e \<Rightarrow> Throw e | OutOfFuel \<Rightarrow> OutOfFuel)
                     | Throw e \<Rightarrow> Throw e | OutOfFuel \<Rightarrow> OutOfFuel)
              | Throw e \<Rightarrow> Throw e | OutOfFuel \<Rightarrow> OutOfFuel)
         | Throw e \<Rightarrow> Throw e | OutOfFuel \<Rightarrow> OutOfFuel)"
      if "sim R pa pb" for pa pb
      by (rule result_case_rel [OF parse_string_sim [OF assms that]]) (auto intro!: i3)
    have "rel_result (rel_prod (=) (sim R))
        (case skip_space rdA n pA of
           Return p1 \<Rightarrow>
             if p_ch p1 \<noteq> DQUOTE then Throw UnexpectedToken
             else
               (case parse_string rdA n p1 of
                  Return (key, p2) \<Rightarrow>
                    (case skip_space rdA n p2 of
                       Return p3 \<Rightarrow>
                         if p_ch p3 \<noteq> CHR '':'' then Throw UnexpectedToken
                         else
                           (case parse fo rdA n (skip rdA p3) of
                              Return (v, p4) \<Rightarrow>
                                (case skip_space rdA n p4 of
                                   Return p5 \<Rightarrow>
                                     if p_ch p5 = CHR ''}'' then
                                       Return (JObject (obj_set obj key v), skip rdA p5)
                                     else if p_ch p5 \<noteq> CHR '','' then Throw UnexpectedToken
                                     else object_loop fo rdA n (obj_set obj key v) (skip rdA p5)
                                 | Throw e \<Rightarrow> Throw e | OutOfFuel \<Rightarrow> OutOfFuel)
                            | Throw e \<Rightarrow> Throw e | OutOfFuel \<Rightarrow> OutOfFuel)
                     | Throw e \<Rightarrow> Throw e | OutOfFuel \<Rightarrow> OutOfFuel)
                | Throw e \<Rightarrow> Throw e | OutOfFuel \<Rightarrow> OutOfFuel)
         | Throw e \<Rightarrow> Throw e | OutOfFuel \<Rightarrow> OutOfFuel)
        (case skip_space rdB n pB of
           Return p1 \<Rightarrow>
             if p_ch p1 \<noteq> DQUOTE then Throw UnexpectedToken
             else
               (case parse_string rdB n p1 of
                  Return (key, p2) \<Rightarrow>
                    (case skip_space rdB n p2 of
                       Return p3 \<Rightarrow>
                         if p_ch p3 \<noteq> CHR '':'' then Throw UnexpectedToken
                         else
                           (case parse fo rdB n (skip rdB p3) of
                              Return (v, p4) \<Rightarrow>
                                (case skip_space rdB n p4 of
                                   Return p5 \<Rightarrow>
                                     if p_ch p5 = CHR ''}'' then
                                       Return (JObject (obj_set obj key v), skip rdB p5)
                                     else if p_ch p5 \<noteq> CHR '','' then Throw UnexpectedToken
                                     else object_loop fo rdB n (obj_set obj key v) (skip rdB p5)
                                 | Throw e \<Rightarrow> Throw e | OutOfFuel \<Rightarrow> OutOfFuel)
                            | Throw e \<Rightarrow> Throw e | OutOfFuel \<Rightarrow> OutOfFuel)
                     | Throw e \<Rightarrow> Throw e | OutOfFuel \<Rightarrow> OutOfFuel)
                | Throw e \<Rightarrow> Throw e | OutOfFuel \<Rightarrow> OutOfFuel)
         | Throw e \<Rightarrow> Throw e | OutOfFuel \<Rightarrow> OutOfFuel)"
      by (rule result_case_rel [OF skip_space_sim [OF assms s]])
         (auto simp: sim_ch intro!: i2)
    with c0 show ?thesis by simp
  qed
  from P1 P2 P3 show ?case by blast
qed


lemma bisim_readers: "bisim StringReader_rdch StreamReader_rdch tail_rel"
  unfolding bisim_def
proof (intro allI impI)
  fix str s
  assume r: "tail_rel str s"
  then have i: "reader_inv s" and p: "pending s = tl str" and z: "NUL \<notin> set str"
    by (simp_all add: tail_rel_def)
  note st = StreamReader_rdch_step [OF i]
  show "fst (StringReader_rdch str) = fst (StreamReader_rdch s)
        \<and> tail_rel (snd (StringReader_rdch str)) (snd (StreamReader_rdch s))"
  proof (cases str)
    case Nil
    with st p show ?thesis
      by (simp add: StringReader_rdch_def tail_rel_def)
  next
    case (Cons c cs)
    with z have "c \<noteq> NUL" "NUL \<notin> set cs" by auto
    with st p Cons show ?thesis
      by (simp add: StringReader_rdch_def tail_rel_def)
  qed
qed

lemma deserialize_is_stream_of_tail:
  assumes "NUL \<notin> set s" "c \<noteq> NUL"
  shows "deserialize fo n (c # s) = deserialize_stream fo n (stream_of s)"
proof -
  have "tail_rel (c # s) (StreamReader_init (stream_of s))"
    using assms by (simp add: tail_rel_def StreamReader_init_inv StreamReader_init_pending)
  then have "sim tail_rel (Parser_init StringReader_rdch (c # s))
                  (Parser_init StreamReader_rdch (StreamReader_init (stream_of s)))"
    by (rule sim_init [OF bisim_readers])
  with parse_sim_all [OF bisim_readers, of fo n]
  have "rel_result (rel_prod (=) (sim tail_rel))
          (parse fo StringReader_rdch n (Parser_init StringReader_rdch (c # s)))
          (parse fo StreamReader_rdch n (Parser_init StreamReader_rdch (StreamReader_init (stream_of s))))"
    by blast
  then show ?thesis
    unfolding deserialize_def deserialize_stream_def
    by (auto elim!: result.rel_cases)
qed

text \<open>
  With it, what holds of text after the value on the string path holds on the stream
  path, for texts without null bytes.
\<close>

lemma deserialize_stream_extend:
  assumes "NUL \<notin> set w" "NUL \<notin> set t"
    and "deserialize_stream fo n (stream_of w) = Return v"
    and "\<not> is_number v \<or> \<not> extends_number (deref t)"
  shows "deserialize_stream fo n (stream_of (w @ t)) = Return v"
proof -
  have "deserialize fo n (CHR ''x'' # w) = Return v"
    using deserialize_is_stream_of_tail [of w "CHR ''x''" fo n] assms(1,3) by simp
  then have "deserialize fo n ((CHR ''x'' # w) @ t) = Return v"
    using assms(4) by (rule deserialize_extend)
  moreover have "deserialize fo n (CHR ''x'' # (w @ t)) = deserialize_stream fo n (stream_of (w @ t))"
    using assms(1,2) by (intro deserialize_is_stream_of_tail) auto
  ultimately show ?thesis by simp
qed

section \<open>Every parse ends\<close>

text \<open>
  Every loop of the parser consumes a character in each iteration that is followed by
  another, and each reader has finitely many characters to return: with fuel above
  twice the length of the text, \<open>deserialize\<close> returns or throws, on either reader. With
  the section on fuel, the result is then the same for every larger fuel.
\<close>

lemma skip_okp: "progress rd \<mu> I \<Longrightarrow> okp I p \<Longrightarrow> okp I (skip rd p)"
  by (auto simp: progress_def okp_def skip_def split: prod.splits)

lemma skip_left_le: "progress rd \<mu> I \<Longrightarrow> okp I p \<Longrightarrow> left \<mu> (skip rd p) \<le> left \<mu> p"
proof -
  assume pr: "progress rd \<mu> I" and ok: "okp I p"
  obtain c r' where r: "rd (p_r p) = (c, r')" by (cases "rd (p_r p)")
  from pr ok r have "\<mu> r' \<le> \<mu> (p_r p)" "c = NUL \<or> \<mu> r' < \<mu> (p_r p)"
    unfolding progress_def okp_def by (metis fst_conv snd_conv)+
  with r show ?thesis by (auto simp: left_def skip_def)
qed

lemma skip_left_lt:
  "progress rd \<mu> I \<Longrightarrow> okp I p \<Longrightarrow> p_ch p \<noteq> NUL \<Longrightarrow> left \<mu> (skip rd p) < left \<mu> p"
proof -
  assume pr: "progress rd \<mu> I" and ok: "okp I p" and nz: "p_ch p \<noteq> NUL"
  obtain c r' where r: "rd (p_r p) = (c, r')" by (cases "rd (p_r p)")
  from pr ok r have "\<mu> r' \<le> \<mu> (p_r p)" "c = NUL \<or> \<mu> r' < \<mu> (p_r p)"
    unfolding progress_def okp_def by (metis fst_conv snd_conv)+
  with r nz show ?thesis by (auto simp: left_def skip_def)
qed

lemma init_okp_left:
  assumes "progress rd \<mu> I" "I r"
  shows "okp I (Parser_init rd r) \<and> left \<mu> (Parser_init rd r) \<le> \<mu> r"
proof -
  obtain c r' where r: "rd r = (c, r')" by (cases "rd r")
  from assms r have "I r'" "\<mu> r' \<le> \<mu> r" "c = NUL \<or> \<mu> r' < \<mu> r"
    unfolding progress_def by (metis fst_conv snd_conv)+
  with r show ?thesis by (auto simp: left_def okp_def Parser_init_def)
qed

lemma kept_refl: "okp I p \<Longrightarrow> kept \<mu> I p p"
  by (simp add: kept_def)

lemma kept_skip: "progress rd \<mu> I \<Longrightarrow> okp I p \<Longrightarrow> kept \<mu> I p (skip rd p)"
  by (simp add: kept_def skip_okp skip_left_le)

lemma kept_trans: "kept \<mu> I p q \<Longrightarrow> kept \<mu> I q r \<Longrightarrow> kept \<mu> I p r"
  by (auto simp: kept_def)

lemma kept_okp: "kept \<mu> I p q \<Longrightarrow> okp I q"
  by (simp add: kept_def)

lemma kept_left: "kept \<mu> I p q \<Longrightarrow> left \<mu> q \<le> left \<mu> p"
  by (simp add: kept_def)

lemma skip_space_kept:
  assumes pr: "progress rd \<mu> I"
  shows "okp I p \<Longrightarrow> skip_space rd n p = Return p' \<Longrightarrow> kept \<mu> I p p'"
proof (induction n arbitrary: p)
  case 0
  then show ?case by simp
next
  case (Suc n)
  show ?case
  proof (cases "isspace (p_ch p)")
    case True
    with Suc.prems have "skip_space rd n (skip rd p) = Return p'" by simp
    from Suc.IH [OF skip_okp [OF pr Suc.prems(1)] this] kept_skip [OF pr Suc.prems(1)]
    show ?thesis by (rule kept_trans [rotated])
  next
    case False
    with Suc.prems show ?thesis by (simp add: kept_refl)
  qed
qed

lemma skip_space_total:
  assumes pr: "progress rd \<mu> I"
  shows "okp I p \<Longrightarrow> left \<mu> p < n \<Longrightarrow> skip_space rd n p \<noteq> OutOfFuel"
proof (induction n arbitrary: p)
  case 0
  then show ?case by simp
next
  case (Suc n)
  show ?case
  proof (cases "isspace (p_ch p)")
    case True
    then have "p_ch p \<noteq> NUL" by (auto simp: isspace_def)
    from skip_left_lt [OF pr Suc.prems(1) this] Suc.prems(2)
    have "left \<mu> (skip rd p) < n" by simp
    from Suc.IH [OF skip_okp [OF pr Suc.prems(1)] this] True show ?thesis by simp
  next
    case False
    then show ?thesis by simp
  qed
qed

lemma expect_kept:
  assumes pr: "progress rd \<mu> I"
  shows "okp I p \<Longrightarrow> expect rd cs p = Return p' \<Longrightarrow> kept \<mu> I p p'"
proof (induction cs arbitrary: p)
  case Nil
  then show ?case by (simp add: kept_refl)
next
  case (Cons c cs)
  from Cons.prems have "expect rd cs (skip rd p) = Return p'" by (simp split: if_splits)
  from Cons.IH [OF skip_okp [OF pr Cons.prems(1)] this] kept_skip [OF pr Cons.prems(1)]
  show ?case by (rule kept_trans [rotated])
qed

lemma parse_null_kept:
  assumes "progress rd \<mu> I" "okp I p" "parse_null rd p = Return (v, p')"
  shows "kept \<mu> I p p'"
proof -
  from assms(3) have "expect rd ''ull'' (skip rd p) = Return p'"
    by (cases "expect rd ''ull'' (skip rd p)") (simp_all add: parse_null_def del: expect.simps)
  from expect_kept [OF assms(1) skip_okp [OF assms(1,2)] this] kept_skip [OF assms(1,2)]
  show ?thesis by (rule kept_trans [rotated])
qed

lemma parse_true_kept:
  assumes "progress rd \<mu> I" "okp I p" "parse_true rd p = Return (v, p')"
  shows "kept \<mu> I p p'"
proof -
  from assms(3) have "expect rd ''rue'' (skip rd p) = Return p'"
    by (cases "expect rd ''rue'' (skip rd p)") (simp_all add: parse_true_def del: expect.simps)
  from expect_kept [OF assms(1) skip_okp [OF assms(1,2)] this] kept_skip [OF assms(1,2)]
  show ?thesis by (rule kept_trans [rotated])
qed

lemma parse_false_kept:
  assumes "progress rd \<mu> I" "okp I p" "parse_false rd p = Return (v, p')"
  shows "kept \<mu> I p p'"
proof -
  from assms(3) have "expect rd ''alse'' (skip rd p) = Return p'"
    by (cases "expect rd ''alse'' (skip rd p)") (simp_all add: parse_false_def del: expect.simps)
  from expect_kept [OF assms(1) skip_okp [OF assms(1,2)] this] kept_skip [OF assms(1,2)]
  show ?thesis by (rule kept_trans [rotated])
qed


lemma digit_loop_kept:
  assumes pr: "progress rd \<mu> I"
  shows "okp I p \<Longrightarrow> digit_loop rd n acc p = Return (x, p') \<Longrightarrow> kept \<mu> I p p'"
proof (induction n arbitrary: acc p)
  case 0
  then show ?case by simp
next
  case (Suc n)
  note k = kept_skip [OF pr Suc.prems(1)]
  show ?case
  proof (cases "isdigit (p_ch (skip rd p))")
    case True
    with Suc.prems have
      "digit_loop rd n (acc * 10 + word_of_int (digit_val (p_ch p))) (skip rd p) = Return (x, p')"
      by (simp add: Let_def)
    from Suc.IH [OF kept_okp [OF k] this] k show ?thesis by (rule kept_trans [rotated])
  next
    case False
    with Suc.prems k show ?thesis by (simp add: Let_def)
  qed
qed

lemma digit_loop_total:
  assumes pr: "progress rd \<mu> I"
  shows "okp I p \<Longrightarrow> p_ch p \<noteq> NUL \<Longrightarrow> left \<mu> p < n \<Longrightarrow> digit_loop rd n acc p \<noteq> OutOfFuel"
proof (induction n arbitrary: acc p)
  case 0
  then show ?case by simp
next
  case (Suc n)
  show ?case
  proof (cases "isdigit (p_ch (skip rd p))")
    case True
    then have nz: "p_ch (skip rd p) \<noteq> NUL" by (auto simp: isdigit_def)
    from skip_left_lt [OF pr Suc.prems(1,2)] Suc.prems(3)
    have "left \<mu> (skip rd p) < n" by simp
    from Suc.IH [OF skip_okp [OF pr Suc.prems(1)] nz this] True show ?thesis
      by (simp add: Let_def)
  next
    case False
    then show ?thesis by (simp add: Let_def)
  qed
qed

lemma exp_skip_loop_kept:
  assumes pr: "progress rd \<mu> I"
  shows "okp I p \<Longrightarrow> exp_skip_loop rd n p = Return p' \<Longrightarrow> kept \<mu> I p p'"
proof (induction n arbitrary: p)
  case 0
  then show ?case by simp
next
  case (Suc n)
  note k = kept_skip [OF pr Suc.prems(1)]
  show ?case
  proof (cases "isdigit (p_ch (skip rd p))")
    case True
    with Suc.prems have "exp_skip_loop rd n (skip rd p) = Return p'"
      by (simp add: Let_def)
    from Suc.IH [OF kept_okp [OF k] this] k show ?thesis by (rule kept_trans [rotated])
  next
    case False
    with Suc.prems k show ?thesis by (simp add: Let_def)
  qed
qed

lemma exp_skip_loop_total:
  assumes pr: "progress rd \<mu> I"
  shows "okp I p \<Longrightarrow> p_ch p \<noteq> NUL \<Longrightarrow> left \<mu> p < n \<Longrightarrow> exp_skip_loop rd n p \<noteq> OutOfFuel"
proof (induction n arbitrary: p)
  case 0
  then show ?case by simp
next
  case (Suc n)
  show ?case
  proof (cases "isdigit (p_ch (skip rd p))")
    case True
    then have nz: "p_ch (skip rd p) \<noteq> NUL" by (auto simp: isdigit_def)
    from skip_left_lt [OF pr Suc.prems(1,2)] Suc.prems(3)
    have "left \<mu> (skip rd p) < n" by simp
    from Suc.IH [OF skip_okp [OF pr Suc.prems(1)] nz this] True show ?thesis
      by (simp add: Let_def)
  next
    case False
    then show ?thesis by (simp add: Let_def)
  qed
qed

lemma exp_loop_kept:
  assumes pr: "progress rd \<mu> I"
  shows "okp I p \<Longrightarrow> exp_loop rd n acc p = Return (x, p') \<Longrightarrow> kept \<mu> I p p'"
proof (induction n arbitrary: acc p)
  case 0
  then show ?case by simp
next
  case (Suc n)
  note k = kept_skip [OF pr Suc.prems(1)]
  show ?case
  proof (cases "isdigit (p_ch (skip rd p))")
    case True
    with Suc.prems have
      "exp_loop rd n (acc + (acc * 10 + word_of_int (digit_val (p_ch p)))) (skip rd p) = Return (x, p')"
      by (simp add: Let_def)
    from Suc.IH [OF kept_okp [OF k] this] k show ?thesis by (rule kept_trans [rotated])
  next
    case False
    with Suc.prems k show ?thesis by (simp add: Let_def)
  qed
qed

lemma exp_loop_total:
  assumes pr: "progress rd \<mu> I"
  shows "okp I p \<Longrightarrow> p_ch p \<noteq> NUL \<Longrightarrow> left \<mu> p < n \<Longrightarrow> exp_loop rd n acc p \<noteq> OutOfFuel"
proof (induction n arbitrary: acc p)
  case 0
  then show ?case by simp
next
  case (Suc n)
  show ?case
  proof (cases "isdigit (p_ch (skip rd p))")
    case True
    then have nz: "p_ch (skip rd p) \<noteq> NUL" by (auto simp: isdigit_def)
    from skip_left_lt [OF pr Suc.prems(1,2)] Suc.prems(3)
    have "left \<mu> (skip rd p) < n" by simp
    from Suc.IH [OF skip_okp [OF pr Suc.prems(1)] nz this] True show ?thesis
      by (simp add: Let_def)
  next
    case False
    then show ?thesis by (simp add: Let_def)
  qed
qed

lemma dot_loop_kept:
  assumes pr: "progress rd \<mu> I"
  shows "okp I p \<Longrightarrow> dot_loop fo rd n e acc p = Return (x, p') \<Longrightarrow> kept \<mu> I p p'"
proof (induction n arbitrary: e acc p)
  case 0
  then show ?case by simp
next
  case (Suc n)
  note k = kept_skip [OF pr Suc.prems(1)]
  show ?case
  proof (cases "isdigit (p_ch (skip rd p))")
    case True
    with Suc.prems have
      "dot_loop fo rd n (f_sub fo e (f_of_int fo 1))
         (f_add fo acc (f_mul fo (f_of_int fo (digit_val (p_ch p))) (f_pow fo (f_of_int fo 10) e)))
         (skip rd p) = Return (x, p')"
      by (simp add: Let_def)
    from Suc.IH [OF kept_okp [OF k] this] k show ?thesis by (rule kept_trans [rotated])
  next
    case False
    with Suc.prems k show ?thesis by (simp add: Let_def)
  qed
qed

lemma dot_loop_total:
  assumes pr: "progress rd \<mu> I"
  shows "okp I p \<Longrightarrow> p_ch p \<noteq> NUL \<Longrightarrow> left \<mu> p < n \<Longrightarrow> dot_loop fo rd n e acc p \<noteq> OutOfFuel"
proof (induction n arbitrary: e acc p)
  case 0
  then show ?case by simp
next
  case (Suc n)
  show ?case
  proof (cases "isdigit (p_ch (skip rd p))")
    case True
    then have nz: "p_ch (skip rd p) \<noteq> NUL" by (auto simp: isdigit_def)
    from skip_left_lt [OF pr Suc.prems(1,2)] Suc.prems(3)
    have "left \<mu> (skip rd p) < n" by simp
    from Suc.IH [OF skip_okp [OF pr Suc.prems(1)] nz this] True show ?thesis
      by (simp add: Let_def)
  next
    case False
    then show ?thesis by (simp add: Let_def)
  qed
qed


lemma parse_exp_kept_total:
  assumes pr: "progress rd \<mu> I" and ok: "okp I p"
  shows "(parse_exp fo rd n acc p = Return (x, p') \<longrightarrow> kept \<mu> I p p')
         \<and> (left \<mu> p < n \<longrightarrow> parse_exp fo rd n acc p \<noteq> OutOfFuel)"
proof -
  let ?p1 = "skip rd p"
  let ?p2 = "if p_ch ?p1 = CHR ''-'' then skip rd ?p1
             else if p_ch ?p1 = CHR ''+'' then skip rd ?p1 else ?p1"
  note k1 = kept_skip [OF pr ok]
  have k2: "kept \<mu> I p ?p2"
    using k1 kept_trans [OF k1 kept_skip [OF pr kept_okp [OF k1]]] by simp
  note ok2 = kept_okp [OF k2]
  show ?thesis
  proof (cases "isdigit (p_ch ?p2)")
    case False
    then show ?thesis by (simp add: parse_exp_def Let_def)
  next
    case d: True
    then have nz: "p_ch ?p2 \<noteq> NUL" by (auto simp: isdigit_def)
    show ?thesis
    proof (cases "f_is_zero fo acc")
      case True
      have a: "kept \<mu> I p p'" if "parse_exp fo rd n acc p = Return (x, p')"
      proof -
        from that d True have "exp_skip_loop rd n ?p2 = Return p'"
          by (cases "exp_skip_loop rd n ?p2") (simp_all add: parse_exp_def Let_def)
        from k2 exp_skip_loop_kept [OF pr ok2 this] show ?thesis by (rule kept_trans)
      qed
      have b: "parse_exp fo rd n acc p \<noteq> OutOfFuel" if "left \<mu> p < n"
      proof -
        from that kept_left [OF k2] have "left \<mu> ?p2 < n" by simp
        from exp_skip_loop_total [OF pr ok2 nz this] d True show ?thesis
          by (cases "exp_skip_loop rd n ?p2") (simp_all add: parse_exp_def Let_def)
      qed
      from a b show ?thesis by blast
    next
      case False
      have a: "kept \<mu> I p p'" if "parse_exp fo rd n acc p = Return (x, p')"
      proof -
        from that d False obtain ex where "exp_loop rd n 0 ?p2 = Return (ex, p')"
          by (cases "exp_loop rd n 0 ?p2") (auto simp: parse_exp_def Let_def)
        from k2 exp_loop_kept [OF pr ok2 this] show ?thesis by (rule kept_trans)
      qed
      have b: "parse_exp fo rd n acc p \<noteq> OutOfFuel" if "left \<mu> p < n"
      proof -
        from that kept_left [OF k2] have "left \<mu> ?p2 < n" by simp
        from exp_loop_total [OF pr ok2 nz this, of 0] d False show ?thesis
          by (cases "exp_loop rd n 0 ?p2") (auto simp: parse_exp_def Let_def)
      qed
      from a b show ?thesis by blast
    qed
  qed
qed

lemma parse_dot_kept_total:
  assumes pr: "progress rd \<mu> I" and ok: "okp I p"
  shows "(parse_dot fo rd n acc p = Return (x, p') \<longrightarrow> kept \<mu> I p p')
         \<and> (left \<mu> p < n \<longrightarrow> parse_dot fo rd n acc p \<noteq> OutOfFuel)"
proof (cases "isdigit (p_ch (skip rd p))")
  case False
  then show ?thesis by (simp add: parse_dot_def Let_def)
next
  case d: True
  let ?p1 = "skip rd p"
  let ?d = "dot_loop fo rd n (f_of_int fo (- 1)) acc ?p1"
  note k1 = kept_skip [OF pr ok]
  note ok1 = kept_okp [OF k1]
  from d have nz: "p_ch ?p1 \<noteq> NUL" by (auto simp: isdigit_def)
  show ?thesis
  proof (cases ?d)
    case (Return yq)
    obtain y q where yq: "yq = (y, q)" by (cases yq)
    from dot_loop_kept [OF pr ok1] Return yq have kq: "kept \<mu> I ?p1 q" by simp
    note k = kept_trans [OF k1 kq]
    show ?thesis
    proof (cases "p_ch q = CHR ''e'' \<or> p_ch q = CHR ''E''")
      case True
      with d Return yq have e: "parse_dot fo rd n acc p = parse_exp fo rd n y q"
        by (simp add: parse_dot_def Let_def)
      note pe = parse_exp_kept_total [OF pr kept_okp [OF k], of fo n y x p']
      from pe k kept_left [OF k] show ?thesis
        unfolding e by (auto intro: kept_trans)
    next
      case False
      with d Return yq have e: "parse_dot fo rd n acc p = Return (y, q)"
        by (simp add: parse_dot_def Let_def)
      with k show ?thesis by auto
    qed
  next
    case (Throw e)
    with d show ?thesis by (simp add: parse_dot_def Let_def)
  next
    case OutOfFuel
    with d have e: "parse_dot fo rd n acc p = OutOfFuel" by (simp add: parse_dot_def Let_def)
    have "\<not> left \<mu> p < n"
    proof
      assume "left \<mu> p < n"
      with kept_left [OF k1] have "left \<mu> ?p1 < n" by simp
      from dot_loop_total [OF pr ok1 nz this, of fo "f_of_int fo (- 1)" acc] OutOfFuel
      show False by simp
    qed
    with e show ?thesis by simp
  qed
qed

lemma parse_digit_kept_total:
  assumes pr: "progress rd \<mu> I" and ok: "okp I p" and nz0: "p_ch p \<noteq> NUL"
  shows "(parse_digit fo rd n p = Return (v, p') \<longrightarrow> kept \<mu> I p p')
         \<and> (left \<mu> p < n \<longrightarrow> parse_digit fo rd n p \<noteq> OutOfFuel)"
proof -
  let ?p1 = "if p_ch p = CHR ''-'' then skip rd p else p"
  have k1: "kept \<mu> I p ?p1" using kept_skip [OF pr ok] kept_refl [OF ok] by simp
  note ok1 = kept_okp [OF k1]
  show ?thesis
  proof (cases "p_ch p = CHR ''-'' \<and> \<not> isdigit (p_ch ?p1)")
    case True
    then show ?thesis by (auto simp: parse_digit_def Let_def)
  next
    case okd: False
    then have nz: "p_ch ?p1 \<noteq> NUL" using nz0 by (auto simp: isdigit_def split: if_splits)
    let ?d = "digit_loop rd n 0 ?p1"
    show ?thesis
    proof (cases ?d)
      case (Return yq)
      obtain iv q where yq: "yq = (iv, q)" by (cases yq)
      from digit_loop_kept [OF pr ok1] Return yq have kq: "kept \<mu> I ?p1 q" by simp
      note k = kept_trans [OF k1 kq]
      note okq = kept_okp [OF k]
      consider (dot) "p_ch q = CHR ''.''"
        | (ex) "p_ch q \<noteq> CHR ''.''" "p_ch q = CHR ''e'' \<or> p_ch q = CHR ''E''"
        | (int) "p_ch q \<noteq> CHR ''.''" "\<not> (p_ch q = CHR ''e'' \<or> p_ch q = CHR ''E'')"
        by blast
      then show ?thesis
      proof cases
        case dot
        with okd Return yq have e: "parse_digit fo rd n p =
            (case parse_dot fo rd n (f_of_int fo (sint iv)) q of
               Return (y, p3) \<Rightarrow>
                 Return (JFloat (if p_ch p \<noteq> CHR ''-'' then y else f_neg fo y), p3)
             | Throw e \<Rightarrow> Throw e | OutOfFuel \<Rightarrow> OutOfFuel)"
          by (auto simp: parse_digit_def Let_def)
        show ?thesis
        proof (cases "parse_dot fo rd n (f_of_int fo (sint iv)) q")
          case r: (Return yp)
          obtain y p3 where yp: "yp = (y, p3)" by (cases yp)
          from parse_dot_kept_total [OF pr okq, of fo n "f_of_int fo (sint iv)" y p3] r yp
          have "kept \<mu> I q p3" by simp
          with k have "kept \<mu> I p p3" by (rule kept_trans)
          with e r yp show ?thesis by auto
        next
          case (Throw e')
          with e show ?thesis by simp
        next
          case OutOfFuel
          with parse_dot_kept_total [OF pr okq, of fo n "f_of_int fo (sint iv)"] kept_left [OF k]
          have "\<not> left \<mu> p < n" by auto
          with e OutOfFuel show ?thesis by simp
        qed
      next
        case ex
        with okd Return yq have e: "parse_digit fo rd n p =
            (case parse_exp fo rd n (f_of_int fo (sint iv)) q of
               Return (y, p3) \<Rightarrow>
                 Return (JFloat (if p_ch p \<noteq> CHR ''-'' then y else f_neg fo y), p3)
             | Throw e \<Rightarrow> Throw e | OutOfFuel \<Rightarrow> OutOfFuel)"
          by (auto simp: parse_digit_def Let_def)
        show ?thesis
        proof (cases "parse_exp fo rd n (f_of_int fo (sint iv)) q")
          case r: (Return yp)
          obtain y p3 where yp: "yp = (y, p3)" by (cases yp)
          from parse_exp_kept_total [OF pr okq, of fo n "f_of_int fo (sint iv)" y p3] r yp
          have "kept \<mu> I q p3" by simp
          with k have "kept \<mu> I p p3" by (rule kept_trans)
          with e r yp show ?thesis by auto
        next
          case (Throw e')
          with e show ?thesis by simp
        next
          case OutOfFuel
          with parse_exp_kept_total [OF pr okq, of fo n "f_of_int fo (sint iv)"] kept_left [OF k]
          have "\<not> left \<mu> p < n" by auto
          with e OutOfFuel show ?thesis by simp
        qed
      next
        case int
        with okd Return yq have
          "parse_digit fo rd n p = Return (JInt (if p_ch p \<noteq> CHR ''-'' then iv else - iv), q)"
          by (auto simp: parse_digit_def Let_def)
        with k show ?thesis by auto
      qed
    next
      case (Throw e)
      with okd show ?thesis by (auto simp: parse_digit_def Let_def)
    next
      case OutOfFuel
      with okd have e: "parse_digit fo rd n p = OutOfFuel" by (auto simp: parse_digit_def Let_def)
      have "\<not> left \<mu> p < n"
      proof
        assume "left \<mu> p < n"
        with kept_left [OF k1] have "left \<mu> ?p1 < n" by simp
        from digit_loop_total [OF pr ok1 nz this, of 0] OutOfFuel show False by simp
      qed
      with e show ?thesis by simp
    qed
  qed
qed

lemma hex_loop_kept:
  assumes pr: "progress rd \<mu> I"
  shows "okp I p \<Longrightarrow> hex_loop rd k hex p = Return (x, p') \<Longrightarrow> kept \<mu> I p p'"
proof (induction k arbitrary: hex p)
  case 0
  then show ?case by (simp add: kept_refl)
next
  case (Suc k)
  note k1 = kept_skip [OF pr Suc.prems(1)]
  from Suc.prems(2) obtain hex' where "hex_loop rd k hex' (skip rd p) = Return (x, p')"
    by (auto simp: Let_def split: if_splits)
  from Suc.IH [OF kept_okp [OF k1] this] k1 show ?case by (rule kept_trans [rotated])
qed

lemma escape_kept:
  assumes pr: "progress rd \<mu> I" and ok: "okp I p" and r: "escape rd p = Return (bytes, p')"
  shows "kept \<mu> I p p'"
proof (cases "p_ch p = CHR ''u''")
  case True
  with r obtain hex where "hex_loop rd 4 0 p = Return (hex, p')"
    by (cases "hex_loop rd 4 0 p") (auto simp: escape_def Let_def simp del: hex_loop.simps)
  with hex_loop_kept [OF pr ok] show ?thesis by blast
next
  case False
  with r have "p' = p" by (auto simp: escape_def Let_def split: if_splits)
  with ok show ?thesis by (simp add: kept_refl)
qed

lemma string_loop_kept_total:
  assumes pr: "progress rd \<mu> I"
  shows "okp I p \<Longrightarrow>
     (string_loop rd n ss p = Return (x, p') \<longrightarrow> kept \<mu> I p p')
     \<and> (left \<mu> p < n \<longrightarrow> string_loop rd n ss p \<noteq> OutOfFuel)"
proof (induction n arbitrary: ss p)
  case 0
  then show ?case by simp
next
  case (Suc n)
  note ok = Suc.prems
  note k1 = kept_skip [OF pr ok]
  note ok1 = kept_okp [OF k1]
  consider (stop) "p_ch p = NUL" | (quote) "p_ch p \<noteq> NUL" "p_ch p = DQUOTE"
    | (bslash) "p_ch p \<noteq> NUL" "p_ch p \<noteq> DQUOTE" "p_ch p = BSLASH"
    | (other) "p_ch p \<noteq> NUL" "p_ch p \<noteq> DQUOTE" "p_ch p \<noteq> BSLASH"
    by blast
  then show ?case
  proof cases
    case stop
    then show ?thesis by simp
  next
    case quote
    with k1 show ?thesis by auto
  next
    case bslash
    show ?thesis
    proof (cases "escape rd (skip rd p)")
      case (Return bq)
      obtain bytes q where bq: "bq = (bytes, q)" by (cases bq)
      from escape_kept [OF pr ok1] Return bq have kq: "kept \<mu> I (skip rd p) q" by simp
      note k2 = kept_trans [OF kq kept_skip [OF pr kept_okp [OF kq]]]
      note k = kept_trans [OF k1 k2]
      from skip_left_lt [OF pr ok bslash(1)] kept_left [OF k2]
      have lt: "left \<mu> (skip rd q) < left \<mu> p" by simp
      from bslash Return bq have
        e: "string_loop rd (Suc n) ss p = string_loop rd n (ss @ bytes) (skip rd q)" by simp
      from Suc.IH [OF kept_okp [OF k], of "ss @ bytes"] k lt show ?thesis
        unfolding e by (auto intro: kept_trans)
    next
      case (Throw e)
      with bslash show ?thesis by simp
    next
      case OutOfFuel
      with escape_no_fuel show ?thesis by blast
    qed
  next
    case other
    from other have
      e: "string_loop rd (Suc n) ss p = string_loop rd n (ss @ [p_ch p]) (skip rd p)" by simp
    from skip_left_lt [OF pr ok other(1)] have lt: "left \<mu> (skip rd p) < left \<mu> p" .
    from Suc.IH [OF ok1, of "ss @ [p_ch p]"] k1 lt show ?thesis
      unfolding e by (auto intro: kept_trans)
  qed
qed

lemma parse_string_kept_total:
  assumes pr: "progress rd \<mu> I" and ok: "okp I p"
  shows "(parse_string rd n p = Return (x, p') \<longrightarrow> kept \<mu> I p p')
     \<and> (left \<mu> p < n \<longrightarrow> parse_string rd n p \<noteq> OutOfFuel)"
proof -
  note k1 = kept_skip [OF pr ok]
  from string_loop_kept_total [OF pr kept_okp [OF k1], of n "[]" x p'] k1 kept_left [OF k1]
  show ?thesis unfolding parse_string_def by (auto intro: kept_trans)
qed

lemma parse_string_value_kept_total:
  assumes pr: "progress rd \<mu> I" and ok: "okp I p"
  shows "((parse_string_value rd n p :: ('f json \<times> 'r Parser) result) = Return (v, p')
            \<longrightarrow> kept \<mu> I p p')
     \<and> (left \<mu> p < n \<longrightarrow> (parse_string_value rd n p :: ('f json \<times> 'r Parser) result) \<noteq> OutOfFuel)"
proof (cases "parse_string rd n p")
  case (Return sq)
  obtain str q where sq: "sq = (str, q)" by (cases sq)
  from parse_string_kept_total [OF pr ok, of n str q] Return sq show ?thesis
    by (auto simp: parse_string_value_def)
next
  case (Throw e)
  then show ?thesis by (simp add: parse_string_value_def)
next
  case OutOfFuel
  with parse_string_kept_total [OF pr ok, of n] show ?thesis
    by (auto simp: parse_string_value_def)
qed


lemma parse_kept_total_all:
  fixes fo :: "'f float_ops" and rd :: "'r \<Rightarrow> char \<times> 'r"
  assumes pr: "progress rd \<mu> I"
  shows "(\<forall>p. okp I p \<longrightarrow>
            (\<forall>v p'. parse fo rd n p = Return (v, p') \<longrightarrow> kept \<mu> I p p')
            \<and> (2 * left \<mu> p + 1 \<le> n \<longrightarrow> parse fo rd n p \<noteq> OutOfFuel))
       \<and> (\<forall>arr p. okp I p \<longrightarrow>
            (\<forall>v p'. array_loop fo rd n arr p = Return (v, p') \<longrightarrow> kept \<mu> I p p')
            \<and> (2 * left \<mu> p + 2 \<le> n \<longrightarrow> array_loop fo rd n arr p \<noteq> OutOfFuel))
       \<and> (\<forall>obj p. okp I p \<longrightarrow>
            (\<forall>v p'. object_loop fo rd n obj p = Return (v, p') \<longrightarrow> kept \<mu> I p p')
            \<and> (2 * left \<mu> p + 2 \<le> n \<longrightarrow> object_loop fo rd n obj p \<noteq> OutOfFuel))"
proof (induction n)
  case 0
  show ?case by simp
next
  case (Suc n)
  then have IH1: "\<And>p. okp I p \<Longrightarrow>
            (\<forall>v p'. parse fo rd n p = Return (v, p') \<longrightarrow> kept \<mu> I p p')
            \<and> (2 * left \<mu> p + 1 \<le> n \<longrightarrow> parse fo rd n p \<noteq> OutOfFuel)"
    and IH2: "\<And>arr p. okp I p \<Longrightarrow>
            (\<forall>v p'. array_loop fo rd n arr p = Return (v, p') \<longrightarrow> kept \<mu> I p p')
            \<and> (2 * left \<mu> p + 2 \<le> n \<longrightarrow> array_loop fo rd n arr p \<noteq> OutOfFuel)"
    and IH3: "\<And>obj p. okp I p \<Longrightarrow>
            (\<forall>v p'. object_loop fo rd n obj p = Return (v, p') \<longrightarrow> kept \<mu> I p p')
            \<and> (2 * left \<mu> p + 2 \<le> n \<longrightarrow> object_loop fo rd n obj p \<noteq> OutOfFuel)"
    by blast+
  have P1: "(\<forall>v p'. parse fo rd (Suc n) p = Return (v, p') \<longrightarrow> kept \<mu> I p p')
            \<and> (2 * left \<mu> p + 1 \<le> Suc n \<longrightarrow> parse fo rd (Suc n) p \<noteq> OutOfFuel)"
    if ok: "okp I p" for p
  proof -
    let ?c = "p_ch p"
    note k1 = kept_skip [OF pr ok]
    note ok1 = kept_okp [OF k1]
    consider (ws) "?c = CHR '' '' \<or> ?c = HT \<or> ?c = CR \<or> ?c = VT \<or> ?c = FF \<or> ?c = LF"
      | (num) "\<not> (?c = CHR '' '' \<or> ?c = HT \<or> ?c = CR \<or> ?c = VT \<or> ?c = FF \<or> ?c = LF)"
              "?c = CHR ''-'' \<or> isdigit ?c"
      | (lit) "\<not> (?c = CHR '' '' \<or> ?c = HT \<or> ?c = CR \<or> ?c = VT \<or> ?c = FF \<or> ?c = LF)"
              "\<not> (?c = CHR ''-'' \<or> isdigit ?c)"
              "?c = CHR ''n'' \<or> ?c = CHR ''t'' \<or> ?c = CHR ''f''"
      | (str) "\<not> (?c = CHR '' '' \<or> ?c = HT \<or> ?c = CR \<or> ?c = VT \<or> ?c = FF \<or> ?c = LF)"
              "\<not> (?c = CHR ''-'' \<or> isdigit ?c)" "?c = DQUOTE"
      | (arr) "\<not> (?c = CHR '' '' \<or> ?c = HT \<or> ?c = CR \<or> ?c = VT \<or> ?c = FF \<or> ?c = LF)"
              "\<not> (?c = CHR ''-'' \<or> isdigit ?c)" "?c = CHR ''[''"
      | (obj) "\<not> (?c = CHR '' '' \<or> ?c = HT \<or> ?c = CR \<or> ?c = VT \<or> ?c = FF \<or> ?c = LF)"
              "\<not> (?c = CHR ''-'' \<or> isdigit ?c)" "?c = CHR ''{''"
      | (other) "\<not> (?c = CHR '' '' \<or> ?c = HT \<or> ?c = CR \<or> ?c = VT \<or> ?c = FF \<or> ?c = LF)"
              "\<not> (?c = CHR ''-'' \<or> isdigit ?c)"
              "\<not> (?c = CHR ''n'' \<or> ?c = CHR ''t'' \<or> ?c = CHR ''f'')"
              "?c \<noteq> DQUOTE" "?c \<noteq> CHR ''[''" "?c \<noteq> CHR ''{''"
      by blast
    then show ?thesis
    proof cases
      case ws
      then have nz: "?c \<noteq> NUL" by auto
      from ws have e: "parse fo rd (Suc n) p = parse fo rd n (skip rd p)" by (simp add: Let_def)
      from skip_left_lt [OF pr ok nz] have lt: "left \<mu> (skip rd p) < left \<mu> p" .
      from IH1 [OF ok1] k1 lt show ?thesis
        unfolding e by (auto intro: kept_trans)
    next
      case num
      then have nz: "?c \<noteq> NUL" by (auto simp: isdigit_def)
      then have pos: "0 < left \<mu> p" by (simp add: left_def)
      from num have e: "parse fo rd (Suc n) p = parse_digit fo rd n p" by (simp add: Let_def)
      from parse_digit_kept_total [OF pr ok nz, of fo n] pos show ?thesis
        unfolding e by auto
    next
      case lit
      then have nz: "?c \<noteq> NUL" by auto
      from lit have e: "parse fo rd (Suc n) p =
          (if ?c = CHR ''n'' then parse_null rd p
           else if ?c = CHR ''t'' then parse_true rd p else parse_false rd p)"
        by (auto simp: Let_def)
      have "parse_null rd p \<noteq> (OutOfFuel :: ('f json \<times> 'r Parser) result)"
        "parse_true rd p \<noteq> (OutOfFuel :: ('f json \<times> 'r Parser) result)"
        "parse_false rd p \<noteq> (OutOfFuel :: ('f json \<times> 'r Parser) result)"
        using expect_no_fuel [of rd _ "skip rd p"]
        by (auto simp: parse_null_def parse_true_def parse_false_def
                 simp del: expect.simps split: result.splits)
      with parse_null_kept [OF pr ok] parse_true_kept [OF pr ok] parse_false_kept [OF pr ok]
      show ?thesis unfolding e by auto
    next
      case str
      then have nz: "?c \<noteq> NUL" by auto
      then have pos: "0 < left \<mu> p" by (simp add: left_def)
      from str have e: "parse fo rd (Suc n) p = parse_string_value rd n p" by (simp add: Let_def)
      from parse_string_value_kept_total [OF pr ok, of n, where ?'f = 'f] pos show ?thesis
        unfolding e by auto
    next
      case arr
      then have nz: "?c \<noteq> NUL" by auto
      from arr have e: "parse fo rd (Suc n) p = array_loop fo rd n [] (skip rd p)"
        by (simp add: Let_def)
      from skip_left_lt [OF pr ok nz] have lt: "left \<mu> (skip rd p) < left \<mu> p" .
      from IH2 [OF ok1, of "[]"] k1 lt show ?thesis
        unfolding e by (auto intro: kept_trans)
    next
      case obj
      then have nz: "?c \<noteq> NUL" by auto
      from obj have e: "parse fo rd (Suc n) p = object_loop fo rd n [] (skip rd p)"
        by (simp add: Let_def)
      from skip_left_lt [OF pr ok nz] have lt: "left \<mu> (skip rd p) < left \<mu> p" .
      from IH3 [OF ok1, of "[]"] k1 lt show ?thesis
        unfolding e by (auto intro: kept_trans)
    next
      case other
      then show ?thesis by (simp add: Let_def)
    qed
  qed
  have P2: "(\<forall>v p'. array_loop fo rd (Suc n) arr p = Return (v, p') \<longrightarrow> kept \<mu> I p p')
            \<and> (2 * left \<mu> p + 2 \<le> Suc n \<longrightarrow> array_loop fo rd (Suc n) arr p \<noteq> OutOfFuel)"
    if ok: "okp I p" for arr p
  proof (cases "p_ch p = NUL")
    case True
    then show ?thesis by simp
  next
    case nz: False
    show ?thesis
    proof (cases "parse fo rd n p")
      case (Return vq)
      obtain v1 p1 where vq: "vq = (v1, p1)" by (cases vq)
      from IH1 [OF ok] Return vq have k1: "kept \<mu> I p p1" by simp
      note ok1 = kept_okp [OF k1]
      show ?thesis
      proof (cases "skip_space rd n p1")
        case r2: (Return p2)
        note k2 = kept_trans [OF k1 skip_space_kept [OF pr ok1 r2]]
        note ok2 = kept_okp [OF k2]
        note k3 = kept_trans [OF k2 kept_skip [OF pr ok2]]
        show ?thesis
        proof (cases "p_ch p2 = CHR '',''")
          case True
          with nz Return vq r2 have
            e: "array_loop fo rd (Suc n) arr p = array_loop fo rd n (arr @ [v1]) (skip rd p2)"
            by simp
          from True have "p_ch p2 \<noteq> NUL" by simp
          from skip_left_lt [OF pr ok2 this] kept_left [OF k2]
          have lt: "left \<mu> (skip rd p2) < left \<mu> p" by simp
          from IH2 [OF kept_okp [OF k3], of "arr @ [v1]"] k3 lt show ?thesis
            unfolding e by (auto intro: kept_trans)
        next
          case False
          with nz Return vq r2 k3 show ?thesis by auto
        qed
      next
        case (Throw e)
        with nz Return vq show ?thesis by simp
      next
        case OutOfFuel
        with nz Return vq have e: "array_loop fo rd (Suc n) arr p = OutOfFuel" by simp
        have "\<not> 2 * left \<mu> p + 2 \<le> Suc n"
        proof
          assume "2 * left \<mu> p + 2 \<le> Suc n"
          with kept_left [OF k1] have "left \<mu> p1 < n" by simp
          from skip_space_total [OF pr ok1 this] OutOfFuel show False by simp
        qed
        with e show ?thesis by simp
      qed
    next
      case (Throw e)
      with nz show ?thesis by simp
    next
      case OutOfFuel
      with nz have e: "array_loop fo rd (Suc n) arr p = OutOfFuel" by simp
      from IH1 [OF ok] OutOfFuel have "\<not> 2 * left \<mu> p + 1 \<le> n" by auto
      with e show ?thesis by simp
    qed
  qed
  have P3: "(\<forall>v p'. object_loop fo rd (Suc n) obj p = Return (v, p') \<longrightarrow> kept \<mu> I p p')
            \<and> (2 * left \<mu> p + 2 \<le> Suc n \<longrightarrow> object_loop fo rd (Suc n) obj p \<noteq> OutOfFuel)"
    if ok: "okp I p" for obj p
  proof (cases "p_ch p = NUL")
    case True
    then show ?thesis by simp
  next
    case nz: False
    show ?thesis
    proof (cases "skip_space rd n p")
      case r1: (Return p1)
      note k1 = skip_space_kept [OF pr ok r1]
      note ok1 = kept_okp [OF k1]
      show ?thesis
      proof (cases "p_ch p1 = DQUOTE")
        case q: True
        show ?thesis
        proof (cases "parse_string rd n p1")
          case r2: (Return kq)
          obtain key p2 where kq: "kq = (key, p2)" by (cases kq)
          from parse_string_kept_total [OF pr ok1, of n key p2] r2 kq
          have "kept \<mu> I p1 p2" by simp
          note k2 = kept_trans [OF k1 this]
          note ok2 = kept_okp [OF k2]
          show ?thesis
          proof (cases "skip_space rd n p2")
            case r3: (Return p3)
            note k3 = kept_trans [OF k2 skip_space_kept [OF pr ok2 r3]]
            note ok3 = kept_okp [OF k3]
            show ?thesis
            proof (cases "p_ch p3 = CHR '':''")
              case c: True
              then have nz3: "p_ch p3 \<noteq> NUL" by simp
              note k3' = kept_trans [OF k3 kept_skip [OF pr ok3]]
              note ok3' = kept_okp [OF k3']
              from skip_left_lt [OF pr ok3 nz3] kept_left [OF k3]
              have lt3: "left \<mu> (skip rd p3) < left \<mu> p" by simp
              show ?thesis
              proof (cases "parse fo rd n (skip rd p3)")
                case r4: (Return vq)
                obtain v1 p4 where vq: "vq = (v1, p4)" by (cases vq)
                from IH1 [OF ok3'] r4 vq have "kept \<mu> I (skip rd p3) p4" by simp
                note k4 = kept_trans [OF k3' this]
                note ok4 = kept_okp [OF k4]
                show ?thesis
                proof (cases "skip_space rd n p4")
                  case r5: (Return p5)
                  note k5 = kept_trans [OF k4 skip_space_kept [OF pr ok4 r5]]
                  note ok5 = kept_okp [OF k5]
                  note k6 = kept_trans [OF k5 kept_skip [OF pr ok5]]
                  show ?thesis
                  proof (cases "p_ch p5 = CHR '',''")
                    case True
                    with nz r1 q r2 kq r3 c r4 vq r5 have
                      e: "object_loop fo rd (Suc n) obj p
                            = object_loop fo rd n (obj_set obj key v1) (skip rd p5)"
                      by simp
                    from True have "p_ch p5 \<noteq> NUL" by simp
                    from skip_left_lt [OF pr ok5 this] kept_left [OF k5]
                    have lt: "left \<mu> (skip rd p5) < left \<mu> p" by simp
                    from IH3 [OF kept_okp [OF k6], of "obj_set obj key v1"] k6 lt show ?thesis
                      unfolding e by (auto intro: kept_trans)
                  next
                    case False
                    with nz r1 q r2 kq r3 c r4 vq r5 k6 show ?thesis by auto
                  qed
                next
                  case (Throw e)
                  with nz r1 q r2 kq r3 c r4 vq show ?thesis by simp
                next
                  case OutOfFuel
                  with nz r1 q r2 kq r3 c r4 vq have
                    e: "object_loop fo rd (Suc n) obj p = OutOfFuel" by simp
                  have "\<not> 2 * left \<mu> p + 2 \<le> Suc n"
                  proof
                    assume "2 * left \<mu> p + 2 \<le> Suc n"
                    with kept_left [OF k4] have "left \<mu> p4 < n" by simp
                    from skip_space_total [OF pr ok4 this] OutOfFuel show False by simp
                  qed
                  with e show ?thesis by simp
                qed
              next
                case (Throw e)
                with nz r1 q r2 kq r3 c show ?thesis by simp
              next
                case OutOfFuel
                with nz r1 q r2 kq r3 c have
                  e: "object_loop fo rd (Suc n) obj p = OutOfFuel" by simp
                from IH1 [OF ok3'] OutOfFuel lt3 have "\<not> 2 * left \<mu> p + 2 \<le> Suc n" by auto
                with e show ?thesis by simp
              qed
            next
              case False
              with nz r1 q r2 kq r3 show ?thesis by simp
            qed
          next
            case (Throw e)
            with nz r1 q r2 kq show ?thesis by simp
          next
            case OutOfFuel
            with nz r1 q r2 kq have e: "object_loop fo rd (Suc n) obj p = OutOfFuel" by simp
            have "\<not> 2 * left \<mu> p + 2 \<le> Suc n"
            proof
              assume "2 * left \<mu> p + 2 \<le> Suc n"
              with kept_left [OF k2] have "left \<mu> p2 < n" by simp
              from skip_space_total [OF pr ok2 this] OutOfFuel show False by simp
            qed
            with e show ?thesis by simp
          qed
        next
          case (Throw e)
          with nz r1 q show ?thesis by simp
        next
          case OutOfFuel
          with nz r1 q have e: "object_loop fo rd (Suc n) obj p = OutOfFuel" by simp
          have "\<not> 2 * left \<mu> p + 2 \<le> Suc n"
          proof
            assume "2 * left \<mu> p + 2 \<le> Suc n"
            with kept_left [OF k1] have "left \<mu> p1 < n" by simp
            with parse_string_kept_total [OF pr ok1, of n] OutOfFuel show False by simp
          qed
          with e show ?thesis by simp
        qed
      next
        case False
        with nz r1 show ?thesis by simp
      qed
    next
      case (Throw e)
      with nz show ?thesis by simp
    next
      case OutOfFuel
      with nz have e: "object_loop fo rd (Suc n) obj p = OutOfFuel" by simp
      have "\<not> 2 * left \<mu> p + 2 \<le> Suc n"
      proof
        assume "2 * left \<mu> p + 2 \<le> Suc n"
        then have "left \<mu> p < n" by simp
        from skip_space_total [OF pr ok this] OutOfFuel show False by simp
      qed
      with e show ?thesis by simp
    qed
  qed
  from P1 P2 P3 show ?case by blast
qed


lemma progress_StringReader: "progress StringReader_rdch length (\<lambda>str. True)"
  unfolding progress_def
proof (intro allI impI)
  fix r :: string
  show "True \<and> length (snd (StringReader_rdch r)) \<le> length r
        \<and> (fst (StringReader_rdch r) = NUL \<or> length (snd (StringReader_rdch r)) < length r)"
    by (cases r) (simp_all add: StringReader_rdch_def)
qed

lemma progress_StreamReader:
  "progress StreamReader_rdch (\<lambda>s. length (pending s)) reader_inv"
  unfolding progress_def
proof (intro allI impI)
  fix r
  assume "reader_inv r"
  from StreamReader_rdch_step [OF this]
  show "reader_inv (snd (StreamReader_rdch r))
        \<and> length (pending (snd (StreamReader_rdch r))) \<le> length (pending r)
        \<and> (fst (StreamReader_rdch r) = NUL
            \<or> length (pending (snd (StreamReader_rdch r))) < length (pending r))"
    by (cases "pending r") simp_all
qed

lemma deserialize_total:
  assumes "2 * length str + 1 \<le> n"
  shows "deserialize fo n str \<noteq> OutOfFuel"
proof -
  let ?p = "Parser_init StringReader_rdch str"
  from init_okp_left [OF progress_StringReader, of str]
  have ok: "okp (\<lambda>str. True) ?p" and "left length ?p \<le> length str" by simp_all
  with assms have "2 * left length ?p + 1 \<le> n" by simp
  with parse_kept_total_all [OF progress_StringReader, of fo n] ok
  have "parse fo StringReader_rdch n ?p \<noteq> OutOfFuel" by blast
  then show ?thesis by (auto simp: deserialize_def split: result.splits)
qed

lemma deserialize_stream_total:
  assumes "2 * length s + 1 \<le> n"
  shows "deserialize_stream fo n (stream_of s) \<noteq> OutOfFuel"
proof -
  let ?p = "Parser_init StreamReader_rdch (StreamReader_init (stream_of s))"
  from init_okp_left [OF progress_StreamReader StreamReader_init_inv, of s]
  have ok: "okp reader_inv ?p" and "left (\<lambda>s. length (pending s)) ?p \<le> length s"
    by (simp_all add: StreamReader_init_pending)
  with assms have "2 * left (\<lambda>s. length (pending s)) ?p + 1 \<le> n" by simp
  with parse_kept_total_all [OF progress_StreamReader, of fo n] ok
  have "parse fo StreamReader_rdch n ?p \<noteq> OutOfFuel" by blast
  then show ?thesis by (auto simp: deserialize_stream_def split: result.splits)
qed

end
